theory Spec2Isabelle
  imports Complex_Main "HOL-Library.Char_ord" "HOL-Library.List_Lexorder" "HOL-Library.Sublist"
    "HOL-Library.AList"
begin

section \<open>Strings\<close>

text \<open>
  A Python \<open>str\<close> is modelled as a \<open>string\<close>, one \<open>char\<close> per code point. The case
  conversions below are the ones Python performs on ASCII letters; every keyword, separator
  and digit the program looks for is ASCII.
\<close>

definition is_upper :: "char \<Rightarrow> bool" where
  "is_upper c = (CHR ''A'' \<le> c \<and> c \<le> CHR ''Z'')"

definition is_lower :: "char \<Rightarrow> bool" where
  "is_lower c = (CHR ''a'' \<le> c \<and> c \<le> CHR ''z'')"

definition lower_char :: "char \<Rightarrow> char" where
  "lower_char c = (if is_upper c then char_of (of_char c + (32::nat)) else c)"

definition upper_char :: "char \<Rightarrow> char" where
  "upper_char c = (if is_lower c then char_of (of_char c - (32::nat)) else c)"

text \<open>\<open>s.lower()\<close>\<close>

definition lower :: "string \<Rightarrow> string" where
  "lower s = map lower_char s"

text \<open>\<open>k in s\<close> for two strings: \<open>k\<close> occurs in \<open>s\<close> as a contiguous block.\<close>

fun contains :: "string \<Rightarrow> string \<Rightarrow> bool" where
  "contains [] k = (k = [])"
| "contains (c # cs) k = (prefix k (c # cs) \<or> contains cs k)"

section \<open>The category table\<close>

record category_info =
  keyword_list :: "string list"
  color :: string
  priority :: nat

text \<open>\<open>self.categories\<close>: a dict, kept as the list of its items in insertion order.\<close>

definition categories :: "(string \<times> category_info) list" where
  "categories =
    [(''plan'', \<lparr>keyword_list = [''how to'', ''approach'', ''strategy'', ''plan'', ''design'',
        ''architecture'', ''finding''], color = ''#3B82F6'', priority = 1\<rparr>),
     (''codegen'', \<lparr>keyword_list = [''create'', ''implement'', ''add'', ''build'', ''integrate'',
        ''generate'', ''construct''], color = ''#10B981'', priority = 2\<rparr>),
     (''refactor'', \<lparr>keyword_list = [''refactor'', ''improve'', ''clean'', ''organize'',
        ''reorganize'', ''rename'', ''move''], color = ''#8B5CF6'', priority = 3\<rparr>),
     (''debug'', \<lparr>keyword_list = [''error'', ''why'', ''issue'', ''fix'', ''fixing'', ''bug'',
        ''problem'', ''syntax error''], color = ''#F59E0B'', priority = 4\<rparr>),
     (''feature'', \<lparr>keyword_list = [''change'', ''update'', ''allow'', ''adjust'', ''selecting'',
        ''trigger'', ''show''], color = ''#EC4899'', priority = 5\<rparr>),
     (''review'', \<lparr>keyword_list = [''understanding'', ''what'', ''explain'', ''critique'',
        ''code review''], color = ''#F97316'', priority = 6\<rparr>),
     (''meta'', \<lparr>keyword_list = [''commit'', ''git'', ''merge'', ''abort'', ''branch''],
        color = ''#6366F1'', priority = 7\<rparr>),
     (''config'', \<lparr>keyword_list = [''input'', ''parameter'', ''requirements'', ''settings'',
        ''configure''], color = ''#06B6D4'', priority = 8\<rparr>)]"

text \<open>\<open>self.categories.keys()\<close>\<close>

definition category_names :: "string list" where
  "category_names = map fst categories"

section \<open>Keyword classification: \<open>categorize_session\<close>\<close>

text \<open>
  One round of the inner loop: a keyword found in \<open>text\<close> adds 3 when it is also found in
  \<open>title.lower()\<close> and 1 otherwise.
\<close>

definition add_keyword :: "string \<Rightarrow> string \<Rightarrow> string \<Rightarrow> int \<Rightarrow> int" where
  "add_keyword text title keyword score =
    (if contains text keyword
     then (if contains (lower title) keyword then score + 3 else score + 1)
     else score)"

text \<open>The inner loop over \<open>info["keywords"]\<close>, started at \<open>score = 0\<close>.\<close>

definition keyword_score :: "string \<Rightarrow> string \<Rightarrow> string list \<Rightarrow> int" where
  "keyword_score text title kws = fold (add_keyword text title) kws 0"

text \<open>The outer loop: the dict \<open>scores\<close>, in the insertion order of the categories.\<close>

definition scores :: "string \<Rightarrow> string \<Rightarrow> (string \<times> int) list" where
  "scores title content =
    (let text = lower (title @ '' '' @ content)
     in map (\<lambda>(category, info). (category, keyword_score text title (keyword_list info)))
          categories)"

text \<open>
  \<open>max(values)\<close>: the first value is the candidate, and a later one replaces it only when
  it is strictly greater. On an empty sequence Python raises \<open>ValueError\<close>; \<open>scores\<close>
  always has the eight categories.
\<close>

fun max_value :: "int list \<Rightarrow> int" where
  "max_value (v # vs) = fold (\<lambda>x best. if x > best then x else best) vs v"

text \<open>
  \<open>max(scores, key=scores.get)\<close>, on the items of the dict: the keys are distinct, so
  \<open>scores.get\<close> of a key is the value stored beside it. The first key with the greatest
  value is kept.
\<close>

fun max_key :: "(string \<times> int) list \<Rightarrow> string \<times> int" where
  "max_key (e # es) = fold (\<lambda>x best. if snd x > snd best then x else best) es e"

definition confidence_of :: "int \<Rightarrow> string" where
  "confidence_of max_score =
    (if max_score \<ge> 3 then ''high'' else if max_score \<ge> 1 then ''medium'' else ''low'')"

text \<open>\<open>max(scores.values())\<close>\<close>

definition highest_score :: "string \<Rightarrow> string \<Rightarrow> int" where
  "highest_score title content = max_value (map snd (scores title content))"

definition categorize_session :: "string \<Rightarrow> string \<Rightarrow> string \<times> string" where
  "categorize_session title content =
    (let sc = scores title content
     in if highest_score title content > 0
        then (let (category, max_score) = max_key sc
              in (category, confidence_of max_score))
        else (''codegen'', ''low''))"

text \<open>
  What one keyword adds to the score of its category, as a function of the title and the
  content: the two tests of \<open>add_keyword\<close>, the one on the title first.
\<close>

definition keyword_points :: "string \<Rightarrow> string \<Rightarrow> string \<Rightarrow> int" where
  "keyword_points ttl content k =
    (if contains (lower ttl) k then 3
     else if contains (lower (ttl @ '' '' @ content)) k then 1 else 0)"

text \<open>
  Following the spec's words, for comparison with \<open>scores\<close>: every occurrence of a keyword in
  the combined text contributes 1 point, and an occurrence within the title contributes 3
  points instead.
\<close>

fun count_occurrences :: "string \<Rightarrow> string \<Rightarrow> int" where
  "count_occurrences [] k = 0"
| "count_occurrences (c # cs) k =
    (if prefix k (c # cs) then 1 else 0) + count_occurrences cs k"

definition occurrence_scores :: "string \<Rightarrow> string \<Rightarrow> (string \<times> int) list" where
  "occurrence_scores ttl content =
    map (\<lambda>(cat, info).
          (cat, \<Sum>k\<leftarrow>keyword_list info.
                  3 * count_occurrences (lower ttl) k +
                  (count_occurrences (lower (ttl @ '' '' @ content)) k -
                   count_occurrences (lower ttl) k)))
      categories"

section \<open>Dates and times\<close>

text \<open>
  Both failures of \<open>parse_filename\<close> are a Python \<open>ValueError\<close>: the one the function
  raises itself (\<open>Invalid filename format\<close>) and the one \<open>datetime.fromisoformat\<close> raises.
  The other errors are the ones a dict lookup, an operation on a value of the wrong type
  and a division can raise.
\<close>

datatype error =
  InvalidFilenameFormat | InvalidIsoformatString | KeyError | TypeError | ZeroDivisionError

text \<open>
  An aware \<open>datetime\<close> with no microseconds; \<open>utcoffset\<close> is the offset of its time zone
  from UTC, in minutes.
\<close>

record datetime =
  year :: nat
  month :: nat
  day :: nat
  hour :: nat
  minute :: nat
  second :: nat
  utcoffset :: int

definition is_digit :: "char \<Rightarrow> bool" where
  "is_digit c = (CHR ''0'' \<le> c \<and> c \<le> CHR ''9'')"

definition digit_val :: "char \<Rightarrow> nat" where
  "digit_val c = of_char c - 48"

definition digit_char :: "nat \<Rightarrow> char" where
  "digit_char d = char_of (48 + d)"

text \<open>\<open>int(s)\<close> on a string of decimal digits.\<close>

definition digits_val :: "string \<Rightarrow> nat" where
  "digits_val s = fold (\<lambda>c n. 10 * n + digit_val c) s 0"

text \<open>The formats \<open>%02d\<close> and \<open>%04d\<close>, on numbers below 100 and below 10000.\<close>

definition pad2 :: "nat \<Rightarrow> string" where
  "pad2 n = [digit_char (n div 10), digit_char (n mod 10)]"

definition pad4 :: "nat \<Rightarrow> string" where
  "pad4 n = [digit_char (n div 1000), digit_char (n div 100 mod 10),
             digit_char (n div 10 mod 10), digit_char (n mod 10)]"

definition is_leap :: "nat \<Rightarrow> bool" where
  "is_leap y = (y mod 4 = 0 \<and> (y mod 100 \<noteq> 0 \<or> y mod 400 = 0))"

definition days_in_month :: "nat \<Rightarrow> nat \<Rightarrow> nat" where
  "days_in_month y m =
    (if m = 2 \<and> is_leap y then 29
     else [31, 28, 31, 30, 31, 30, 31, 31, 30, 31, 30, 31] ! (m - 1))"

text \<open>
  The range checks of the \<open>datetime\<close> constructor (\<open>MINYEAR = 1\<close>, \<open>MAXYEAR = 9999\<close>) and
  of the \<open>timezone\<close> constructor (an offset strictly between minus and plus 24 hours).
\<close>

definition valid_datetime :: "datetime \<Rightarrow> bool" where
  "valid_datetime dt =
    (1 \<le> year dt \<and> year dt \<le> 9999 \<and> 1 \<le> month dt \<and> month dt \<le> 12 \<and>
     1 \<le> day dt \<and> day dt \<le> days_in_month (year dt) (month dt) \<and>
     hour dt \<le> 23 \<and> minute dt \<le> 59 \<and> second dt \<le> 59 \<and>
     - 1440 < utcoffset dt \<and> utcoffset dt < 1440)"

text \<open>
  \<open>datetime.fromisoformat\<close>, on strings of the shape \<open>YYYY-MM-DD?HH:MM:SS+HH:MM\<close> or
  \<open>YYYY-MM-DD?HH:MM:SS-HH:MM\<close>: a date, any one character as the separator, a time with
  seconds, and an offset from UTC in hours and minutes. The program itself only builds the
  offset \<open>+00:00\<close> and the separator \<open>T\<close>. Python accepts further shapes (no offset,
  fractions of a second, a date alone, seconds in the offset); here they are rejected.
\<close>

fun fromisoformat :: "string \<Rightarrow> error + datetime" where
  "fromisoformat [y1, y2, y3, y4, a, m1, m2, b, d1, d2, t, h1, h2, c, n1, n2, e, s1, s2,
                  p, z1, z2, q, z3, z4] =
    (if list_all is_digit [y1, y2, y3, y4, m1, m2, d1, d2, h1, h2, n1, n2, s1, s2,
                           z1, z2, z3, z4] \<and>
        [a, b, c, e, q] = ''--:::'' \<and> (p = CHR ''+'' \<or> p = CHR ''-'')
     then (let dt = \<lparr>year = digits_val [y1, y2, y3, y4], month = digits_val [m1, m2],
                      day = digits_val [d1, d2], hour = digits_val [h1, h2],
                      minute = digits_val [n1, n2], second = digits_val [s1, s2],
                      utcoffset = (if p = CHR ''-'' then - 1 else 1) *
                        (int (digits_val [z1, z2]) * 60 + int (digits_val [z3, z4]))\<rparr>
           in if valid_datetime dt then Inr dt else Inl InvalidIsoformatString)
     else Inl InvalidIsoformatString)"
| "fromisoformat _ = Inl InvalidIsoformatString"

text \<open>\<open>dt.isoformat()\<close> of an aware datetime without microseconds.\<close>

definition isoformat :: "datetime \<Rightarrow> string" where
  "isoformat dt =
    pad4 (year dt) @ ''-'' @ pad2 (month dt) @ ''-'' @ pad2 (day dt) @ ''T'' @
    pad2 (hour dt) @ '':'' @ pad2 (minute dt) @ '':'' @ pad2 (second dt) @
    (if utcoffset dt < 0 then ''-'' else ''+'') @
    pad2 (nat \<bar>utcoffset dt\<bar> div 60) @ '':'' @ pad2 (nat \<bar>utcoffset dt\<bar> mod 60)"

text \<open>
  \<open>s.replace(old, new)\<close> for a non-empty \<open>old\<close>: the occurrences are replaced from the
  left, without overlap. (The program never replaces the empty string.)
\<close>

function replace :: "string \<Rightarrow> string \<Rightarrow> string \<Rightarrow> string" where
  "replace old new [] = []"
| "replace old new (c # cs) =
    (if old \<noteq> [] \<and> prefix old (c # cs)
     then new @ replace old new (drop (length old) (c # cs))
     else c # replace old new cs)"
  by pat_completeness auto
termination
  by (relation "measure (\<lambda>(old, new, s). length s)") auto

text \<open>
  The proleptic Gregorian ordinal of a date (\<open>toordinal\<close>), by which Python subtracts
  two datetimes.
\<close>

definition days_before_year :: "nat \<Rightarrow> int" where
  "days_before_year y =
    (let y1 = int y - 1 in y1 * 365 + y1 div 4 - y1 div 100 + y1 div 400)"

definition days_before_month :: "nat \<Rightarrow> nat \<Rightarrow> int" where
  "days_before_month y m =
    [0, 0, 31, 59, 90, 120, 151, 181, 212, 243, 273, 304, 334] ! m +
    (if m > 2 \<and> is_leap y then 1 else 0)"

definition toordinal :: "datetime \<Rightarrow> int" where
  "toordinal dt = days_before_year (year dt) + days_before_month (year dt) (month dt) + int (day dt)"

text \<open>
  \<open>(a - b).total_seconds()\<close> for two aware datetimes: the difference of the dates and
  times of day, plus the offset of \<open>b\<close> minus the offset of \<open>a\<close>.
\<close>

definition total_seconds :: "datetime \<Rightarrow> datetime \<Rightarrow> int" where
  "total_seconds a b =
    (toordinal a - toordinal b) * 86400 +
    ((int (second a) + int (minute a) * 60 + int (hour a) * 3600) -
     (int (second b) + int (minute b) * 60 + int (hour b) * 3600)) +
    (utcoffset b - utcoffset a) * 60"

text \<open>\<open>int(x / 60)\<close>: the quotient, rounded towards zero.\<close>

definition whole_minutes :: "int \<Rightarrow> int" where
  "whole_minutes secs = (if secs \<ge> 0 then secs div 60 else - ((- secs) div 60))"

section \<open>The filename parser: \<open>parse_filename\<close>\<close>

text \<open>
  The greedy group \<open>(.+)\<close> followed by \<open>\.md\<close>: the dot takes every character but the
  newline, and backtracking gives the group back one character at a time, so the match is
  the longest non-empty run without a newline that \<open>.md\<close> follows.
\<close>

fun match_slug :: "string \<Rightarrow> string option" where
  "match_slug [] = None"
| "match_slug (c # cs) =
    (if c = CHR 0x0A then None
     else (case match_slug cs of
             Some s \<Rightarrow> Some (c # s)
           | None \<Rightarrow> if prefix ''.md'' cs then Some [c] else None))"

text \<open>
  \<open>re.match(r"(\d{4}-\d{2}-\d{2})_(\d{2}-\d{2})Z-(.+)\.md", filename)\<close> and its three
  groups. \<open>re.match\<close> anchors the pattern at the start of the string only: what follows
  the matched \<open>.md\<close> is not looked at.
\<close>

fun match_filename :: "string \<Rightarrow> (string \<times> string \<times> string) option" where
  "match_filename (y1 # y2 # y3 # y4 # a # m1 # m2 # b # d1 # d2 # u # h1 # h2 # c # n1 # n2 #
                   z # e # rest) =
    (if list_all is_digit [y1, y2, y3, y4, m1, m2, d1, d2, h1, h2, n1, n2] \<and>
        [a, b, u, c, z, e] = ''--_-Z-''
     then (case match_slug rest of
             None \<Rightarrow> None
           | Some title_slug \<Rightarrow>
               Some ([y1, y2, y3, y4, a, m1, m2, b, d1, d2], [h1, h2, c, n1, n2], title_slug))
     else None)"
| "match_filename _ = None"

text \<open>
  \<open>s.title()\<close>: a cased character is made upper case after an uncased one (or at the
  start) and lower case after a cased one. The cased characters here are the ASCII letters;
  Python also cases the letters outside ASCII, so on a string with such letters \<open>str_title\<close>
  is not Python's result; the title that \<open>parse_filename\<close> returns is specified below for
  slugs of ASCII characters.
\<close>

fun title_from :: "bool \<Rightarrow> string \<Rightarrow> string" where
  "title_from previous_is_cased [] = []"
| "title_from previous_is_cased (c # cs) =
    (if is_lower c then (if previous_is_cased then c else upper_char c) # title_from True cs
     else if is_upper c then (if previous_is_cased then lower_char c else c) # title_from True cs
     else c # title_from False cs)"

definition str_title :: "string \<Rightarrow> string" where
  "str_title s = title_from False s"

definition parse_filename :: "string \<Rightarrow> error + (datetime \<times> string)" where
  "parse_filename fname =
    (case match_filename fname of
       None \<Rightarrow> Inl InvalidFilenameFormat
     | Some (date_str, time_str, title_slug) \<Rightarrow>
         (let timestamp_str = date_str @ ''T'' @ replace ''-'' '':'' time_str @ '':00Z''
          in case fromisoformat (replace ''Z'' ''+00:00'' timestamp_str) of
               Inl e \<Rightarrow> Inl e
             | Inr timestamp \<Rightarrow> Inr (timestamp, str_title (replace ''-'' '' '' title_slug))))"



section \<open>Session records\<close>

text \<open>
  A value that \<open>json.loads\<close> returns: \<open>None\<close>, a bool, a number, a string, a list or a
  dict, which is kept as the list of its items.
\<close>

datatype json =
  JNull | JBool bool | JNumber rat | JString string | JArray "json list"
  | JObject "(string \<times> json) list"

text \<open>
  A session is a dict. \<open>parse_all_files\<close> builds it with six keys; \<open>calculate_durations\<close>
  adds the seventh, \<open>duration\<close>. The title and the preview are strings on the keyword path
  and whatever values the classifier's reply holds on the other path.
\<close>

record draft =
  category :: string
  title :: json
  startTime :: string
  confidence :: string
  filename :: string
  preview :: json

record session = draft +
  duration :: int

text \<open>\<open>s["duration"] = d\<close> on a dict that has no such key yet.\<close>

definition set_duration :: "draft \<Rightarrow> int \<Rightarrow> session" where
  "set_duration s d =
    \<lparr>category = category s, title = title s, startTime = startTime s,
     confidence = confidence s, filename = filename s, preview = preview s, duration = d\<rparr>"

text \<open>The six keys a session dict was built with.\<close>

definition without_duration :: "session \<Rightarrow> draft" where
  "without_duration s =
    \<lparr>category = category s, title = title s, startTime = startTime s,
     confidence = confidence s, filename = filename s, preview = preview s\<rparr>"

section \<open>The external classifier: \<open>_categorize_with_openai\<close>\<close>

text \<open>
  Everything up to \<open>json.loads\<close> is the outside world: \<open>reply\<close> is the value that
  \<open>json.loads\<close> returned, or \<open>None\<close> when the module, the key, the request or the decoding
  failed (each of which makes the function return \<open>None\<close>).
\<close>

type_synonym dict = "(string \<times> json) list"

text \<open>
  The rest of the \<open>try\<close> block, from \<open>Validate keys\<close> on. \<open>k in data\<close> looks for a key in
  a dict, for an element in a list and for a substring in a string, and raises \<open>TypeError\<close>
  on any other value; \<open>data["category"]\<close> raises \<open>TypeError\<close> on a list or a string; and
  \<open>data["category"] not in self.categories.keys()\<close> hashes the category, which raises
  \<open>TypeError\<close> when it is a list or a dict.
\<close>

fun unhashable :: "json \<Rightarrow> bool" where
  "unhashable (JArray xs) = True"
| "unhashable (JObject kvs) = True"
| "unhashable other = False"

fun validate_reply :: "json \<Rightarrow> error + dict option" where
  "validate_reply (JObject data) =
    (if \<not> list_all (\<lambda>k. map_of data k \<noteq> None) [''category'', ''title'', ''preview'']
     then Inr None
     else (case map_of data ''category'' of
             None \<Rightarrow> Inl KeyError
           | Some c \<Rightarrow>
               if unhashable c then Inl TypeError
               else if c \<notin> set (map JString category_names)
               then Inr (Some (AList.update ''category'' (JString ''codegen'') data))
               else Inr (Some data)))"
| "validate_reply (JArray xs) =
    (if \<not> list_all (\<lambda>k. JString k \<in> set xs) [''category'', ''title'', ''preview'']
     then Inr None else Inl TypeError)"
| "validate_reply (JString s) =
    (if \<not> list_all (\<lambda>k. contains s k) [''category'', ''title'', ''preview'']
     then Inr None else Inl TypeError)"
| "validate_reply other = Inl TypeError"

text \<open>\<open>except Exception: return None\<close> closes the block.\<close>

definition categorize_with_openai :: "bool \<Rightarrow> json option \<Rightarrow> dict option" where
  "categorize_with_openai use_openai reply =
    (if \<not> use_openai then None
     else (case reply of
             None \<Rightarrow> None
           | Some data \<Rightarrow>
               (case validate_reply data of
                  Inl e \<Rightarrow> None
                | Inr summary \<Rightarrow> summary)))"

section \<open>Assembling the sessions: the loop of \<open>parse_all_files\<close>\<close>

text \<open>The preview of the keyword path.\<close>

definition keyword_preview :: "string \<Rightarrow> string" where
  "keyword_preview content =
    (if length content > 120 then take 117 content @ ''...'' else content)"

text \<open>\<open>d[k]\<close>: a missing key raises \<open>KeyError\<close>.\<close>

definition lookup :: "dict \<Rightarrow> string \<Rightarrow> error + json" where
  "lookup d k = (case map_of d k of None \<Rightarrow> Inl KeyError | Some v \<Rightarrow> Inr v)"

text \<open>\<open>timestamp.isoformat().replace("+00:00", "Z")\<close>, the value of the key \<open>startTime\<close>.\<close>

definition start_time_of :: "datetime \<Rightarrow> string" where
  "start_time_of timestamp = replace ''+00:00'' ''Z'' (isoformat timestamp)"

text \<open>
  The body of the \<open>try\<close> for one file. \<open>content\<close> is what \<open>read_file_content\<close> returned for
  the file, \<open>reply\<close> what \<open>json.loads\<close> made of the classifier's answer. An \<open>Inl\<close> is an
  exception that the \<open>except\<close> clause catches: the file is skipped. The category of a
  summary is always a string (\<open>validate_reply\<close> leaves a category name or puts \<open>codegen\<close>), so
  the last case of the category does not occur.
\<close>

definition assemble_session ::
  "bool \<Rightarrow> string \<Rightarrow> string \<Rightarrow> json option \<Rightarrow> error + draft" where
  "assemble_session use_openai fname content reply =
    (case parse_filename fname of
       Inl e \<Rightarrow> Inl e
     | Inr (timestamp, ttl) \<Rightarrow>
         (let start = start_time_of timestamp
          in case categorize_with_openai use_openai reply of
               Some ai_summary \<Rightarrow>
                 if ai_summary = []
                 then (let (cat, conf) = categorize_session ttl content
                       in Inr \<lparr>category = cat, title = JString ttl, startTime = start,
                               confidence = conf, filename = fname,
                               preview = JString (keyword_preview content)\<rparr>)
                 else (case lookup ai_summary ''category'' of
                         Inl e \<Rightarrow> Inl e
                       | Inr cat \<Rightarrow>
                     (case lookup ai_summary ''title'' of
                         Inl e \<Rightarrow> Inl e
                       | Inr resolved_title \<Rightarrow>
                     (case lookup ai_summary ''preview'' of
                         Inl e \<Rightarrow> Inl e
                       | Inr prev \<Rightarrow>
                     (case cat of
                         JString c \<Rightarrow>
                           Inr \<lparr>category = c, title = resolved_title, startTime = start,
                                confidence = ''high'', filename = fname, preview = prev\<rparr>
                       | other \<Rightarrow> Inl TypeError))))
             | None \<Rightarrow>
                 (let (cat, conf) = categorize_session ttl content
                  in Inr \<lparr>category = cat, title = JString ttl, startTime = start,
                          confidence = conf, filename = fname,
                          preview = JString (keyword_preview content)\<rparr>)))"

text \<open>The loop over the files: a file whose body raised adds nothing.\<close>

fun assemble_all ::
  "bool \<Rightarrow> (string \<times> string \<times> json option) list \<Rightarrow> draft list" where
  "assemble_all use_openai [] = []"
| "assemble_all use_openai ((fname, content, reply) # files) =
    (case assemble_session use_openai fname content reply of
       Inl e \<Rightarrow> assemble_all use_openai files
     | Inr s \<Rightarrow> s # assemble_all use_openai files)"

section \<open>The duration calculator: \<open>calculate_durations\<close>\<close>

text \<open>\<open>datetime.fromisoformat(s["startTime"].replace("Z", "+00:00"))\<close>\<close>

definition start_datetime :: "string \<Rightarrow> error + datetime" where
  "start_datetime st = fromisoformat (replace ''Z'' ''+00:00'' st)"

text \<open>
  The loop over the sorted list: every session but the last gets the minutes up to the
  start of the next one, capped at 240; the last one gets 30. An unreadable start time
  raises out of the function.
\<close>

fun durations_loop :: "draft list \<Rightarrow> error + session list" where
  "durations_loop [] = Inr []"
| "durations_loop [s] = Inr [set_duration s 30]"
| "durations_loop (s # t # rest) =
    (case start_datetime (startTime s) of
       Inl e \<Rightarrow> Inl e
     | Inr current_time \<Rightarrow>
         (case start_datetime (startTime t) of
            Inl e \<Rightarrow> Inl e
          | Inr next_time \<Rightarrow>
              (let duration_minutes =
                     min (whole_minutes (total_seconds next_time current_time)) 240
               in case durations_loop (t # rest) of
                    Inl e \<Rightarrow> Inl e
                  | Inr out \<Rightarrow> Inr (set_duration s duration_minutes # out))))"

text \<open>
  \<open>sorted(sessions, key=lambda x: x["startTime"])\<close> is a stable sort on the start time
  strings, compared character by character.
\<close>

definition calculate_durations :: "draft list \<Rightarrow> error + session list" where
  "calculate_durations sessions0 = durations_loop (sort_key startTime sessions0)"

section \<open>The aggregator: the statistics of \<open>parse_all_files\<close>\<close>

record category_stats =
  stats_duration :: int
  stats_percentage :: rat
  stats_sessions :: nat
  stats_color :: string

record time_range =
  range_start :: "string option"
  range_end :: "string option"

record metadata =
  generated :: string
  totalSessions :: nat
  timeRange :: time_range

record timeline_document =
  sessions :: "session list"
  totalDuration :: int
  doc_categories :: "(string \<times> category_stats) list"
  metadata :: metadata

text \<open>
  \<open>round((cat_duration / total_duration) * 100, 1) if total_duration > 0 else 0\<close>.
  The value is a binary floating point number: \<open>round1\<close> stands for the float computation
  on a non-zero divisor. The division itself raises \<open>ZeroDivisionError\<close> on zero.
\<close>

definition float_percentage :: "(int \<Rightarrow> int \<Rightarrow> rat) \<Rightarrow> int \<Rightarrow> int \<Rightarrow> error + rat" where
  "float_percentage round1 cat_duration total_duration =
    (if total_duration = 0 then Inl ZeroDivisionError
     else Inr (round1 cat_duration total_duration))"

definition percentage :: "(int \<Rightarrow> int \<Rightarrow> rat) \<Rightarrow> int \<Rightarrow> int \<Rightarrow> error + rat" where
  "percentage round1 cat_duration total_duration =
    (if total_duration > 0 then float_percentage round1 cat_duration total_duration
     else Inr 0)"

definition total_duration_of :: "session list \<Rightarrow> int" where
  "total_duration_of ss = sum_list (map duration ss)"

text \<open>The loop \<open>for cat in self.categories\<close>, building the dict \<open>category_stats\<close>.\<close>

fun stats_loop ::
  "(int \<Rightarrow> int \<Rightarrow> rat) \<Rightarrow> session list \<Rightarrow> int \<Rightarrow> (string \<times> category_info) list \<Rightarrow>
   error + (string \<times> category_stats) list" where
  "stats_loop round1 ss total_duration [] = Inr []"
| "stats_loop round1 ss total_duration ((cat, info) # cats) =
    (let cat_sessions = filter (\<lambda>s. category s = cat) ss;
         cat_duration = sum_list (map duration cat_sessions)
     in if cat_sessions \<noteq> []
        then (case percentage round1 cat_duration total_duration of
                Inl e \<Rightarrow> Inl e
              | Inr p \<Rightarrow>
                  (case stats_loop round1 ss total_duration cats of
                     Inl e \<Rightarrow> Inl e
                   | Inr out \<Rightarrow>
                       Inr ((cat, \<lparr>stats_duration = cat_duration, stats_percentage = p,
                                   stats_sessions = length cat_sessions,
                                   stats_color = color info\<rparr>) # out)))
        else stats_loop round1 ss total_duration cats)"

text \<open>
  What \<open>parse_all_files\<close> does with the sessions that \<open>calculate_durations\<close> returned.
  \<open>now\<close> is \<open>datetime.now().isoformat()\<close>.
\<close>

definition build_document ::
  "(int \<Rightarrow> int \<Rightarrow> rat) \<Rightarrow> string \<Rightarrow> session list \<Rightarrow> error + timeline_document" where
  "build_document round1 now ss =
    (let total_duration = total_duration_of ss
     in case stats_loop round1 ss total_duration categories of
          Inl e \<Rightarrow> Inl e
        | Inr stats \<Rightarrow>
            Inr \<lparr>sessions = ss, totalDuration = total_duration, doc_categories = stats,
                 metadata = \<lparr>generated = now, totalSessions = length ss,
                   timeRange = \<lparr>range_start = (if ss \<noteq> [] then Some (startTime (hd ss)) else None),
                                range_end = (if ss \<noteq> [] then Some (startTime (last ss)) else None)\<rparr>\<rparr>\<rparr>)"

text \<open>
  \<open>parse_all_files\<close>: \<open>files\<close> is the sorted list of the \<open>.md\<close> files, each with its
  name, the content read from it and the classifier's reply.
\<close>

definition parse_all_files ::
  "bool \<Rightarrow> (int \<Rightarrow> int \<Rightarrow> rat) \<Rightarrow> string \<Rightarrow> (string \<times> string \<times> json option) list \<Rightarrow>
   error + timeline_document" where
  "parse_all_files use_openai round1 now files =
    (case calculate_durations (assemble_all use_openai files) of
       Inl e \<Rightarrow> Inl e
     | Inr ss \<Rightarrow> build_document round1 now ss)"

section \<open>The empty run\<close>

text \<open>
  Claim C9. With no input file, \<open>parse_all_files\<close> returns the document with no sessions,
  total duration 0, no category entry and a time range whose start and end are both
  \<open>None\<close>. The percentage never raises \<open>ZeroDivisionError\<close>: on a total duration of 0 it is
  the constant 0.
\<close>

theorem empty_input_document:
  "parse_all_files use_openai round1 now [] =
     Inr \<lparr>sessions = [], totalDuration = 0, doc_categories = [],
          metadata = \<lparr>generated = now, totalSessions = 0,
                      timeRange = \<lparr>range_start = None, range_end = None\<rparr>\<rparr>\<rparr>
   \<and> percentage round1 cat_duration total_duration \<noteq> Inl ZeroDivisionError
   \<and> percentage round1 cat_duration 0 = Inr 0"
  by (simp add: parse_all_files_def calculate_durations_def build_document_def
      total_duration_of_def categories_def percentage_def float_percentage_def)

section \<open>The preview of the keyword path\<close>

lemma assemble_session_keyword_path:
  assumes "categorize_with_openai use_openai reply = None"
    and "assemble_session use_openai fname content reply = Inr s"
  shows "preview s = JString (keyword_preview content)"
  using assms
  by (auto simp: assemble_session_def Let_def split: sum.splits prod.splits)

text \<open>
  Claim C6. On the keyword path (the external classifier gave nothing), the preview of the
  assembled session is the content itself when the content has at most 120 characters, and
  otherwise its first 117 characters followed by \<open>...\<close>, 120 characters in all.
\<close>

theorem keyword_path_preview:
  assumes "categorize_with_openai use_openai reply = None"
    and "assemble_session use_openai fname content reply = Inr s"
  shows "(length content \<le> 120 \<longrightarrow> preview s = JString content) \<and>
         (120 < length content \<longrightarrow>
            preview s = JString (take 117 content @ ''...'') \<and>
            length (take 117 content @ ''...'') = 120)"
  using assemble_session_keyword_path[OF assms]
  by (simp add: keyword_preview_def)

theorem keyword_path_preview_witness:
  "categorize_with_openai False None = None \<and>
   (\<exists>s. assemble_session False ''2024-03-15_09-30Z-fix-login.md''
          (replicate 121 CHR ''a'') None = Inr s \<and>
        preview s = JString (replicate 117 CHR ''a'' @ ''...'') \<and>
        length (replicate 117 CHR ''a'' @ ''...'') = 120)"
proof -
  let ?c = "replicate 121 CHR ''a''"
  let ?ts = "\<lparr>year = 2024, month = 3, day = 15, hour = 9, minute = 30, second = 0, utcoffset = 0\<rparr>"
  let ?s = "\<lparr>category = fst (categorize_session ''Fix Login'' ?c), title = JString ''Fix Login'',
             startTime = ''2024-03-15T09:30:00Z'',
             confidence = snd (categorize_session ''Fix Login'' ?c),
             filename = ''2024-03-15_09-30Z-fix-login.md'',
             preview = JString (keyword_preview ?c)\<rparr>"
  have pf: "parse_filename ''2024-03-15_09-30Z-fix-login.md'' = Inr (?ts, ''Fix Login'')"
    by code_simp
  have st: "start_time_of ?ts = ''2024-03-15T09:30:00Z''" by code_simp
  have h1: "categorize_with_openai False None = None"
    by (simp add: categorize_with_openai_def)
  have h2: "assemble_session False ''2024-03-15_09-30Z-fix-login.md'' ?c None = Inr ?s"
    unfolding assemble_session_def pf h1 by (simp add: st case_prod_beta)
  have len: "120 < length ?c" by simp
  have tk: "take 117 ?c = replicate 117 CHR ''a''" by simp
  from keyword_path_preview[OF h1 h2] len
  have "preview ?s = JString (take 117 ?c @ ''...'') \<and> length (take 117 ?c @ ''...'') = 120"
    by blast
  then have "preview ?s = JString (replicate 117 CHR ''a'' @ ''...'') \<and>
      length (replicate 117 CHR ''a'' @ ''...'') = 120"
    unfolding tk .
  with h1 h2 show ?thesis by blast
qed

section \<open>A category outside the table\<close>


lemma assemble_session_keyword:
  assumes "parse_filename fname = Inr (timestamp, ttl)"
    and "categorize_with_openai use_openai reply = None"
  shows "assemble_session use_openai fname content reply =
           Inr \<lparr>category = fst (categorize_session ttl content), title = JString ttl,
                startTime = start_time_of timestamp,
                confidence = snd (categorize_session ttl content), filename = fname,
                preview = JString (keyword_preview content)\<rparr>"
  unfolding assemble_session_def using assms by (simp add: Let_def case_prod_beta)




section \<open>Properties of the keyword classification\<close>

lemma contains_sublist: "contains s k \<longleftrightarrow> sublist k s"
  by (induction s) (auto simp: sublist_Cons_right)

lemma contains_append: "contains xs k \<Longrightarrow> contains (xs @ ys) k"
  unfolding contains_sublist sublist_def by (metis append.assoc)

lemma lower_append: "lower (xs @ ys) = lower xs @ lower ys"
  by (simp add: lower_def)

lemma title_keyword_in_text:
  "contains (lower ttl) k \<Longrightarrow> contains (lower (ttl @ CHR '' '' # content)) k"
  by (simp add: lower_append contains_append)

lemma fold_add_keyword:
  "fold (add_keyword (lower (ttl @ '' '' @ content)) ttl) kws s =
     s + (\<Sum>k\<leftarrow>kws. keyword_points ttl content k)"
  by (induction kws arbitrary: s)
     (auto simp: add_keyword_def keyword_points_def title_keyword_in_text)

lemma keyword_score_sum:
  "keyword_score (lower (ttl @ '' '' @ content)) ttl kws =
     (\<Sum>k\<leftarrow>kws. keyword_points ttl content k)"
  unfolding keyword_score_def fold_add_keyword by simp

lemma keyword_points_nonneg: "0 \<le> keyword_points ttl content k"
  by (simp add: keyword_points_def)

lemma scores_eq:
  "scores ttl content =
     map (\<lambda>(cat, info). (cat, \<Sum>k\<leftarrow>keyword_list info. keyword_points ttl content k))
       categories"
  unfolding scores_def Let_def keyword_score_sum by simp

lemma scores_keys: "map fst (scores ttl content) = category_names"
  by (simp add: scores_eq category_names_def case_prod_beta comp_def)

lemma category_names_eq:
  "category_names = [''plan'', ''codegen'', ''refactor'', ''debug'', ''feature'', ''review'',
                     ''meta'', ''config'']"
  by (simp add: category_names_def categories_def)

lemma distinct_category_names: "distinct category_names"
  unfolding category_names_eq by simp

lemma scores_nonneg: "(cat, v) \<in> set (scores ttl content) \<Longrightarrow> 0 \<le> v"
  by (auto simp: scores_eq intro!: sum_list_nonneg keyword_points_nonneg)

lemma scores_nonempty: "scores ttl content \<noteq> []"
  by (simp add: scores_eq categories_def)

text \<open>The two folds of \<open>max\<close>.\<close>

lemma fold_max_key:
  fixes e :: "string \<times> int"
  defines "f \<equiv> (\<lambda>x best. if snd x > snd best then x else best)"
  shows "\<exists>i < length (e # es). (e # es) ! i = fold f es e \<and>
           (\<forall>j < i. snd ((e # es) ! j) < snd (fold f es e)) \<and>
           (\<forall>x \<in> set (e # es). snd x \<le> snd (fold f es e))"
proof (induction es rule: rev_induct)
  case Nil
  then show ?case by simp
next
  case (snoc x es)
  let ?r = "fold f es e"
  from snoc obtain i where i: "i < length (e # es)" "(e # es) ! i = ?r"
    "\<forall>j < i. snd ((e # es) ! j) < snd ?r" "\<forall>y \<in> set (e # es). snd y \<le> snd ?r"
    by blast
  show ?case
  proof (cases "snd x > snd ?r")
    case True
    then have r: "fold f (es @ [x]) e = x" by (simp add: f_def)
    have "(e # es @ [x]) ! length (e # es) = x"
      by (metis append_Cons nth_append_length)
    moreover have "\<forall>j < length (e # es). snd ((e # es @ [x]) ! j) < snd x"
    proof (intro allI impI)
      fix j assume j: "j < length (e # es)"
      then have "(e # es @ [x]) ! j = (e # es) ! j"
        by (metis append_Cons nth_append)
      moreover have "(e # es) ! j \<in> set (e # es)" using j nth_mem by blast
      ultimately show "snd ((e # es @ [x]) ! j) < snd x" using i(4) True by fastforce
    qed
    moreover have "\<forall>y \<in> set (e # es @ [x]). snd y \<le> snd x"
      using i(4) True by fastforce
    ultimately show ?thesis unfolding r
      by (intro exI[of _ "length (e # es)"]) simp
  next
    case False
    then have r: "fold f (es @ [x]) e = ?r" by (simp add: f_def)
    have nth: "\<And>j. j \<le> i \<Longrightarrow> (e # es @ [x]) ! j = (e # es) ! j"
      using i(1) by (metis append_Cons le_less_trans nth_append)
    have "(e # es @ [x]) ! i = ?r" using nth[of i] i(2) by simp
    moreover have "\<forall>j < i. snd ((e # es @ [x]) ! j) < snd ?r"
      using nth i(3) by simp
    moreover have "\<forall>y \<in> set (e # es @ [x]). snd y \<le> snd ?r"
      using i(4) False by auto
    ultimately show ?thesis unfolding r using i(1)
      by (intro exI[of _ i]) simp
  qed
qed

lemma fold_max_value:
  "snd (fold (\<lambda>x best. if snd x > snd best then x else best) es e) =
     fold (\<lambda>x best. if x > best then x else best) (map snd es) (snd e :: int)"
  by (induction es arbitrary: e) simp_all

lemma max_key_value: "xs \<noteq> [] \<Longrightarrow> snd (max_key xs) = max_value (map snd xs)"
  by (cases xs) (simp_all add: fold_max_value)

lemma max_key_first:
  assumes "xs \<noteq> []"
  shows "\<exists>i < length xs. xs ! i = max_key xs \<and>
           (\<forall>j < i. snd (xs ! j) < snd (max_key xs)) \<and>
           (\<forall>x \<in> set xs. snd x \<le> snd (max_key xs))"
proof -
  from assms obtain e es where xs: "xs = e # es" by (cases xs) auto
  show ?thesis unfolding xs max_key.simps by (rule fold_max_key)
qed

lemma highest_score_max_key: "highest_score ttl content = snd (max_key (scores ttl content))"
  by (simp add: highest_score_def max_key_value scores_nonempty)

lemma max_key_in_scores: "max_key (scores ttl content) \<in> set (scores ttl content)"
  using max_key_first[OF scores_nonempty, of ttl content] by (metis nth_mem)

lemma scores_le_highest:
  "(cat, v) \<in> set (scores ttl content) \<Longrightarrow> v \<le> highest_score ttl content"
  using max_key_first[OF scores_nonempty, of ttl content]
  unfolding highest_score_max_key by fastforce

lemma highest_score_nonneg: "0 \<le> highest_score ttl content"
proof -
  obtain cat v where "max_key (scores ttl content) = (cat, v)" by (cases "max_key (scores ttl content)")
  with max_key_in_scores[of ttl content] scores_nonneg[of cat v ttl content]
  show ?thesis by (simp add: highest_score_max_key)
qed

lemma map_of_scores:
  "(cat, v) \<in> set (scores ttl content) \<Longrightarrow> map_of (scores ttl content) cat = Some v"
  by (rule map_of_is_SomeI) (simp_all add: scores_keys distinct_category_names)

lemma categorize_session_pos:
  assumes "0 < highest_score ttl content"
  shows "categorize_session ttl content =
           (fst (max_key (scores ttl content)), confidence_of (highest_score ttl content))"
  using assms
  by (simp add: categorize_session_def Let_def case_prod_beta highest_score_max_key)

lemma categorize_session_zero:
  assumes "highest_score ttl content = 0"
  shows "categorize_session ttl content = (''codegen'', ''low'')"
  using assms by (simp add: categorize_session_def Let_def)

lemma codegen_score_zero:
  assumes "highest_score ttl content = 0"
  shows "map_of (scores ttl content) ''codegen'' = Some 0"
proof -
  have "''codegen'' \<in> set (map fst (scores ttl content))"
    unfolding scores_keys category_names_eq by simp
  then obtain v where v: "(''codegen'', v) \<in> set (scores ttl content)" by auto
  from scores_nonneg[OF v] scores_le_highest[OF v] assms have "v = 0" by simp
  with map_of_scores[OF v] show ?thesis by simp
qed

lemma winner_has_highest_score:
  "map_of (scores ttl content) (fst (categorize_session ttl content)) =
     Some (highest_score ttl content)"
proof (cases "0 < highest_score ttl content")
  case True
  have "(fst (max_key (scores ttl content)), highest_score ttl content) \<in> set (scores ttl content)"
    using max_key_in_scores[of ttl content] by (simp add: highest_score_max_key)
  from map_of_scores[OF this] show ?thesis by (simp add: categorize_session_pos[OF True])
next
  case False
  with highest_score_nonneg[of ttl content] have z: "highest_score ttl content = 0" by simp
  show ?thesis using codegen_score_zero[OF z] by (simp add: categorize_session_zero[OF z] z)
qed

text \<open>
  Claim C3. The score of the returned category is the highest score, and it is never
  negative. The confidence is \<open>high\<close> when that score is at least 3 and \<open>medium\<close> when it is
  1 or 2; when it is 0 (no keyword matched) the result is \<open>codegen\<close> with confidence \<open>low\<close>.
\<close>

theorem confidence_tiers:
  "map_of (scores ttl content) (fst (categorize_session ttl content)) =
     Some (highest_score ttl content) \<and>
   0 \<le> highest_score ttl content \<and>
   (3 \<le> highest_score ttl content \<longrightarrow> snd (categorize_session ttl content) = ''high'') \<and>
   (highest_score ttl content = 1 \<or> highest_score ttl content = 2 \<longrightarrow>
      snd (categorize_session ttl content) = ''medium'') \<and>
   (highest_score ttl content = 0 \<longrightarrow> categorize_session ttl content = (''codegen'', ''low''))"
proof (intro conjI impI)
  show "map_of (scores ttl content) (fst (categorize_session ttl content)) =
     Some (highest_score ttl content)" by (rule winner_has_highest_score)
  show "0 \<le> highest_score ttl content" by (rule highest_score_nonneg)
  show "snd (categorize_session ttl content) = ''high''" if "3 \<le> highest_score ttl content"
    using that by (simp add: categorize_session_pos confidence_of_def)
  show "snd (categorize_session ttl content) = ''medium''"
    if "highest_score ttl content = 1 \<or> highest_score ttl content = 2"
    using that by (auto simp: categorize_session_pos confidence_of_def)
  show "categorize_session ttl content = (''codegen'', ''low'')" if "highest_score ttl content = 0"
    using that by (rule categorize_session_zero)
qed

theorem confidence_tiers_witness:
  "3 \<le> highest_score ''Fix Login'' ''why'' \<and>
   snd (categorize_session ''Fix Login'' ''why'') = ''high'' \<and>
   highest_score [] ''plan the design'' = 2 \<and>
   snd (categorize_session [] ''plan the design'') = ''medium'' \<and>
   highest_score [] ''hello'' = 0 \<and>
   categorize_session [] ''hello'' = (''codegen'', ''low'')"
proof -
  have h1: "3 \<le> highest_score ''Fix Login'' ''why''" by code_simp
  have h2: "highest_score [] ''plan the design'' = 2" by code_simp
  have h3: "highest_score [] ''hello'' = 0" by code_simp
  show ?thesis
    using confidence_tiers[of "''Fix Login''" "''why''"] confidence_tiers[of "[]" "''plan the design''"]
      confidence_tiers[of "[]" "''hello''"] h1 h2 h3
    by blast
qed

text \<open>
  Claim C1, as amended. The score of a category is the sum, over its keywords, of 3 for a
  keyword that occurs in the lower-cased title, of 1 for a keyword that occurs elsewhere in
  the lower-cased text \<open>title + " " + content\<close>, and of 0 for a keyword that does not occur:
  a keyword counts once, however often it occurs. No category scores more than the returned
  one.
\<close>

theorem keyword_scoring:
  "(\<forall>(cat, info) \<in> set categories.
      map_of (scores ttl content) cat =
        Some (\<Sum>k\<leftarrow>keyword_list info. keyword_points ttl content k)) \<and>
   (\<forall>(cat, v) \<in> set (scores ttl content). v \<le> highest_score ttl content) \<and>
   map_of (scores ttl content) (fst (categorize_session ttl content)) =
     Some (highest_score ttl content)"
proof (intro conjI ballI)
  fix x assume x: "x \<in> set categories"
  obtain cat info where ci: "x = (cat, info)" by (cases x)
  have "(cat, \<Sum>k\<leftarrow>keyword_list info. keyword_points ttl content k) \<in> set (scores ttl content)"
    using x unfolding ci scores_eq by force
  from map_of_scores[OF this]
  show "case x of (cat, info) \<Rightarrow> map_of (scores ttl content) cat =
        Some (\<Sum>k\<leftarrow>keyword_list info. keyword_points ttl content k)"
    by (simp add: ci)
next
  fix x assume x: "x \<in> set (scores ttl content)"
  obtain cat v where "x = (cat, v)" by (cases x)
  with x show "case x of (cat, v) \<Rightarrow> v \<le> highest_score ttl content"
    by (simp add: scores_le_highest)
next
  show "map_of (scores ttl content) (fst (categorize_session ttl content)) =
     Some (highest_score ttl content)" by (rule winner_has_highest_score)
qed

theorem keyword_scoring_witness:
  "map_of (scores ''How To Plan The Approach'' ''I need a strategy for this'') ''plan'' = Some 10 \<and>
   highest_score ''How To Plan The Approach'' ''I need a strategy for this'' = 10 \<and>
   categorize_session ''How To Plan The Approach'' ''I need a strategy for this'' =
     (''plan'', ''high'')"
proof -
  let ?t = "''How To Plan The Approach''" and ?c = "''I need a strategy for this''"
  let ?kws = "[''how to'', ''approach'', ''strategy'', ''plan'', ''design'', ''architecture'',
               ''finding'']"
  have mem: "(''plan'', \<lparr>keyword_list = ?kws, color = ''#3B82F6'', priority = 1\<rparr>)
               \<in> set categories"
    by (simp add: categories_def)
  have total: "(\<Sum>k\<leftarrow>?kws. keyword_points ?t ?c k) = 10" by code_simp
  have hs: "highest_score ?t ?c = 10" by code_simp
  have cs: "categorize_session ?t ?c = (''plan'', ''high'')" by code_simp
  from keyword_scoring[of ?t ?c] mem
  have "map_of (scores ?t ?c) ''plan'' = Some (\<Sum>k\<leftarrow>?kws. keyword_points ?t ?c k)"
    by fastforce
  with total hs cs show ?thesis by simp
qed

text \<open>
  Claim C1 as stated fails: with the content \<open>plan plan plan\<close> the keyword \<open>plan\<close> occurs
  three times outside the title, and the category \<open>plan\<close> scores 1, not 3; the session is
  classified with confidence \<open>medium\<close>.
\<close>

theorem keyword_scoring_counterexample:
  "scores ''Notes'' ''plan plan plan'' =
     [(''plan'', 1), (''codegen'', 0), (''refactor'', 0), (''debug'', 0), (''feature'', 0),
      (''review'', 0), (''meta'', 0), (''config'', 0)] \<and>
   occurrence_scores ''Notes'' ''plan plan plan'' =
     [(''plan'', 3), (''codegen'', 0), (''refactor'', 0), (''debug'', 0), (''feature'', 0),
      (''review'', 0), (''meta'', 0), (''config'', 0)] \<and>
   categorize_session ''Notes'' ''plan plan plan'' = (''plan'', ''medium'')"
  by code_simp

text \<open>
  Claim C8, as amended. The result is a function of the title and the content alone. The
  scores are kept in the order plan, codegen, refactor, debug, feature, review, meta,
  config. When the highest score is positive, the returned category is the first one in
  that order that has it. When every score is 0, the result is \<open>codegen\<close> with confidence
  \<open>low\<close>.
\<close>

theorem tie_break_first_seen:
  "(t1 = t2 \<and> c1 = c2 \<longrightarrow> categorize_session t1 c1 = categorize_session t2 c2) \<and>
   map fst (scores t1 c1) =
     [''plan'', ''codegen'', ''refactor'', ''debug'', ''feature'', ''review'', ''meta'', ''config''] \<and>
   (0 < highest_score t1 c1 \<longrightarrow>
      (\<exists>i < length (scores t1 c1).
          fst (categorize_session t1 c1) = fst (scores t1 c1 ! i) \<and>
          snd (scores t1 c1 ! i) = highest_score t1 c1 \<and>
          (\<forall>j < i. snd (scores t1 c1 ! j) < highest_score t1 c1))) \<and>
   (highest_score t1 c1 = 0 \<longrightarrow> categorize_session t1 c1 = (''codegen'', ''low''))"
proof (intro conjI impI)
  show "categorize_session t1 c1 = categorize_session t2 c2" if "t1 = t2 \<and> c1 = c2"
    using that by simp
  show "map fst (scores t1 c1) =
     [''plan'', ''codegen'', ''refactor'', ''debug'', ''feature'', ''review'', ''meta'', ''config'']"
    by (simp add: scores_keys category_names_eq)
  show "\<exists>i < length (scores t1 c1).
          fst (categorize_session t1 c1) = fst (scores t1 c1 ! i) \<and>
          snd (scores t1 c1 ! i) = highest_score t1 c1 \<and>
          (\<forall>j < i. snd (scores t1 c1 ! j) < highest_score t1 c1)"
    if pos: "0 < highest_score t1 c1"
  proof -
    from max_key_first[OF scores_nonempty, of t1 c1]
    obtain i where i: "i < length (scores t1 c1)" "scores t1 c1 ! i = max_key (scores t1 c1)"
      "\<forall>j < i. snd (scores t1 c1 ! j) < snd (max_key (scores t1 c1))" by blast
    show ?thesis
      using i by (intro exI[of _ i]) (simp add: categorize_session_pos[OF pos] highest_score_max_key)
  qed
  show "categorize_session t1 c1 = (''codegen'', ''low'')" if "highest_score t1 c1 = 0"
    using that by (rule categorize_session_zero)
qed

theorem tie_break_first_seen_witness:
  "0 < highest_score ''Notes'' ''fix update'' \<and>
   scores ''Notes'' ''fix update'' =
     [(''plan'', 0), (''codegen'', 0), (''refactor'', 0), (''debug'', 1), (''feature'', 1),
      (''review'', 0), (''meta'', 0), (''config'', 0)] \<and>
   categorize_session ''Notes'' ''fix update'' = (''debug'', ''medium'') \<and>
   (\<exists>i < length (scores ''Notes'' ''fix update'').
      fst (categorize_session ''Notes'' ''fix update'') = fst (scores ''Notes'' ''fix update'' ! i) \<and>
      snd (scores ''Notes'' ''fix update'' ! i) = highest_score ''Notes'' ''fix update'' \<and>
      (\<forall>j < i. snd (scores ''Notes'' ''fix update'' ! j) < highest_score ''Notes'' ''fix update''))"
proof -
  have h: "0 < highest_score ''Notes'' ''fix update''" by code_simp
  have sc: "scores ''Notes'' ''fix update'' =
     [(''plan'', 0), (''codegen'', 0), (''refactor'', 0), (''debug'', 1), (''feature'', 1),
      (''review'', 0), (''meta'', 0), (''config'', 0)]" by code_simp
  have cs: "categorize_session ''Notes'' ''fix update'' = (''debug'', ''medium'')" by code_simp
  from tie_break_first_seen[of "''Notes''" "''fix update''"] h
  have "\<exists>i < length (scores ''Notes'' ''fix update'').
      fst (categorize_session ''Notes'' ''fix update'') = fst (scores ''Notes'' ''fix update'' ! i) \<and>
      snd (scores ''Notes'' ''fix update'' ! i) = highest_score ''Notes'' ''fix update'' \<and>
      (\<forall>j < i. snd (scores ''Notes'' ''fix update'' ! j) < highest_score ''Notes'' ''fix update'')"
    by blast
  with h sc cs show ?thesis by blast
qed

text \<open>
  Claim C8 as stated fails: with no keyword in the text all eight categories tie at the
  score 0, the first of them is \<open>plan\<close>, and the result is \<open>codegen\<close>.
\<close>

theorem tie_break_counterexample:
  "scores ''Hello'' ''hello there'' =
     [(''plan'', 0), (''codegen'', 0), (''refactor'', 0), (''debug'', 0), (''feature'', 0),
      (''review'', 0), (''meta'', 0), (''config'', 0)] \<and>
   categorize_session ''Hello'' ''hello there'' = (''codegen'', ''low'')"
  by code_simp

section \<open>Properties of the aggregator\<close>

lemma percentage_ok: "\<exists>p. percentage round1 cd td = Inr p"
  by (simp add: percentage_def float_percentage_def)

lemma sum_filter_disjoint:
  fixes f :: "'a \<Rightarrow> int"
  assumes "\<And>x. \<not> (P x \<and> Q x)"
  shows "sum_list (map f (filter P xs)) + sum_list (map f (filter Q xs)) =
         sum_list (map f (filter (\<lambda>x. P x \<or> Q x) xs))"
  using assms by (induction xs) auto

lemma stats_loop_sum:
  assumes "distinct (map fst cats)"
  shows "\<exists>stats. stats_loop round1 ss td cats = Inr stats \<and>
           (\<Sum>e\<leftarrow>stats. stats_duration (snd e)) =
             (\<Sum>s\<leftarrow>filter (\<lambda>s. category s \<in> set (map fst cats)) ss. duration s) \<and>
           map fst stats = filter (\<lambda>c. c \<in> category ` set ss) (map fst cats)"
  using assms
proof (induction cats)
  case Nil
  then show ?case by simp
next
  case (Cons ci cats)
  obtain cat info where ci: "ci = (cat, info)" by (cases ci)
  from Cons.prems have d: "distinct (map fst cats)" and notin: "cat \<notin> set (map fst cats)"
    by (simp_all add: ci)
  from Cons.IH[OF d] obtain stats where st: "stats_loop round1 ss td cats = Inr stats"
    "(\<Sum>e\<leftarrow>stats. stats_duration (snd e)) =
       (\<Sum>s\<leftarrow>filter (\<lambda>s. category s \<in> set (map fst cats)) ss. duration s)"
    "map fst stats = filter (\<lambda>c. c \<in> category ` set ss) (map fst cats)" by blast
  let ?cs = "filter (\<lambda>s. category s = cat) ss"
  have split: "sum_list (map duration ?cs) +
      (\<Sum>s\<leftarrow>filter (\<lambda>s. category s \<in> set (map fst cats)) ss. duration s) =
      (\<Sum>s\<leftarrow>filter (\<lambda>s. category s \<in> set (map fst (ci # cats))) ss. duration s)"
  proof -
    have "sum_list (map duration ?cs) +
      (\<Sum>s\<leftarrow>filter (\<lambda>s. category s \<in> set (map fst cats)) ss. duration s) =
      (\<Sum>s\<leftarrow>filter (\<lambda>s. category s = cat \<or> category s \<in> set (map fst cats)) ss. duration s)"
      by (rule sum_filter_disjoint) (use notin in auto)
    then show ?thesis by (simp add: ci)
  qed
  have mem: "cat \<in> category ` set ss \<longleftrightarrow> ?cs \<noteq> []"
    by (auto simp: filter_empty_conv)
  show ?case
  proof (cases "?cs = []")
    case True
    then have "stats_loop round1 ss td (ci # cats) = Inr stats"
      by (simp add: ci st(1))
    moreover have "sum_list (map duration ?cs) = 0" using True by simp
    ultimately show ?thesis using st(2,3) split mem True by (simp add: ci)
  next
    case False
    obtain p where p: "percentage round1 (sum_list (map duration ?cs)) td = Inr p"
      using percentage_ok by blast
    let ?e = "(cat, \<lparr>stats_duration = sum_list (map duration ?cs), stats_percentage = p,
                 stats_sessions = length ?cs, stats_color = color info\<rparr>)"
    have "stats_loop round1 ss td (ci # cats) = Inr (?e # stats)"
      using False by (simp add: ci st(1) p Let_def)
    then show ?thesis using st(2,3) split mem False by (simp add: ci)
  qed
qed

lemma distinct_categories: "distinct (map fst categories)"
  by (simp add: categories_def)

text \<open>
  Claim C4. For every list of sessions with durations whose categories are among the eight
  names, the document is built, the durations of the emitted category entries add up to
  \<open>totalDuration\<close>, and the entries are exactly those of the categories that some session
  has, in the order of the table: a category without a session has no entry.
\<close>

theorem category_durations_sum:
  assumes "\<forall>s \<in> set ss. category s \<in> set category_names"
  shows "\<exists>doc. build_document round1 now ss = Inr doc \<and>
           (\<Sum>e\<leftarrow>doc_categories doc. stats_duration (snd e)) = totalDuration doc \<and>
           map fst (doc_categories doc) = filter (\<lambda>c. c \<in> category ` set ss) category_names"
proof -
  from stats_loop_sum[OF distinct_categories, of round1 ss "total_duration_of ss"]
  obtain stats where st: "stats_loop round1 ss (total_duration_of ss) categories = Inr stats"
    "(\<Sum>e\<leftarrow>stats. stats_duration (snd e)) =
       (\<Sum>s\<leftarrow>filter (\<lambda>s. category s \<in> set (map fst categories)) ss. duration s)"
    "map fst stats = filter (\<lambda>c. c \<in> category ` set ss) (map fst categories)" by blast
  have "filter (\<lambda>s. category s \<in> set (map fst categories)) ss = ss"
    using assms by (simp add: category_names_def filter_id_conv)
  with st show ?thesis
    by (simp add: build_document_def Let_def total_duration_of_def category_names_def)
qed


theorem category_durations_sum_witness:
  "(\<exists>doc. build_document (\<lambda>a b. 0) ''now''
      [\<lparr>category = ''codegen'', title = JString ''Foo Bar'', startTime = ''2024-01-15T09:00:00Z'',
        confidence = ''medium'', filename = ''2024-01-15_09-00Z-foo-bar.md'',
        preview = JString ''create me'', duration = 45\<rparr>,
       \<lparr>category = ''debug'', title = JString ''Fix Bug'', startTime = ''2024-01-15T09:45:00Z'',
        confidence = ''high'', filename = ''2024-01-15_09-45Z-fix-bug.md'',
        preview = JString ''why'', duration = 30\<rparr>] = Inr doc \<and>
      (\<Sum>e\<leftarrow>doc_categories doc. stats_duration (snd e)) = 75 \<and> totalDuration doc = 75 \<and>
      map fst (doc_categories doc) = [''codegen'', ''debug''])"
proof -
  let ?ss = "[\<lparr>category = ''codegen'', title = JString ''Foo Bar'', startTime = ''2024-01-15T09:00:00Z'',
        confidence = ''medium'', filename = ''2024-01-15_09-00Z-foo-bar.md'',
        preview = JString ''create me'', duration = 45\<rparr>,
       \<lparr>category = ''debug'', title = JString ''Fix Bug'', startTime = ''2024-01-15T09:45:00Z'',
        confidence = ''high'', filename = ''2024-01-15_09-45Z-fix-bug.md'',
        preview = JString ''why'', duration = 30\<rparr>]"
  have h: "\<forall>s \<in> set ?ss. category s \<in> set category_names"
    by (simp add: category_names_def categories_def)
  from category_durations_sum[OF h, of "\<lambda>a b. 0" "''now''"]
  obtain doc where doc: "build_document (\<lambda>a b. 0) ''now'' ?ss = Inr doc"
    "(\<Sum>e\<leftarrow>doc_categories doc. stats_duration (snd e)) = totalDuration doc"
    "map fst (doc_categories doc) = filter (\<lambda>c. c \<in> category ` set ?ss) category_names"
    by blast
  have t: "totalDuration doc = 75"
    using doc(1) by (auto simp: build_document_def Let_def total_duration_of_def split: sum.splits)
  have f: "filter (\<lambda>c. c \<in> category ` set ?ss) category_names = [''codegen'', ''debug'']"
    by (simp add: category_names_def categories_def)
  show ?thesis using doc t f by auto
qed

section \<open>Digits and padded numbers\<close>

lemma div100: "(n::nat) div 100 = n div 10 div 10" by (simp add: div_mult2_eq)
lemma div1000: "(n::nat) div 1000 = n div 10 div 10 div 10" by (simp add: div_mult2_eq)

lemma step_mod: "r < 10 \<Longrightarrow> (r + 10 * k) mod 10 = (r::nat)" by simp
lemma step_div: "r < 10 \<Longrightarrow> (r + 10 * k) div 10 = (k::nat)" by simp

lemma digits4_div_mod:
  fixes a b c d :: nat
  assumes "b < 10" "c < 10" "d < 10"
  shows "(1000 * a + 100 * b + 10 * c + d) div 1000 = a"
    "(1000 * a + 100 * b + 10 * c + d) div 100 mod 10 = b"
    "(1000 * a + 100 * b + 10 * c + d) div 10 mod 10 = c"
    "(1000 * a + 100 * b + 10 * c + d) mod 10 = d"
proof -
  let ?n = "1000 * a + 100 * b + 10 * c + d"
  have n: "?n = d + 10 * (c + 10 * (b + 10 * a))" by simp
  have d1: "?n div 10 = c + 10 * (b + 10 * a)" unfolding n using assms(3) by (rule step_div)
  have d2: "?n div 10 div 10 = b + 10 * a" unfolding d1 using assms(2) by (rule step_div)
  have d3: "?n div 10 div 10 div 10 = a" unfolding d2 using assms(1) by simp
  show "?n div 1000 = a" unfolding div1000 by (rule d3)
  show "?n div 100 mod 10 = b" unfolding div100 d2 using assms(1) by simp
  show "?n div 10 mod 10 = c" unfolding d1 using assms(2) by (rule step_mod)
  show "?n mod 10 = d" unfolding n using assms(3) by (rule step_mod)
qed

lemma digits2_div_mod:
  fixes a b :: nat
  assumes "b < 10"
  shows "(10 * a + b) div 10 = a" "(10 * a + b) mod 10 = b"
  using assms by simp_all

lemma digits4_sum:
  "1000 * (n div 1000) + 100 * (n div 100 mod 10) + 10 * (n div 10 mod 10) + n mod 10 = (n::nat)"
proof -
  define q1 where "q1 = n div 10"
  define q2 where "q2 = q1 div 10"
  define q3 where "q3 = q2 div 10"
  define r0 where "r0 = n mod 10"
  define r1 where "r1 = q1 mod 10"
  define r2 where "r2 = q2 mod 10"
  have e1: "n = 10 * q1 + r0" unfolding q1_def r0_def by simp
  have e2: "q1 = 10 * q2 + r1" unfolding q2_def r1_def by simp
  have e3: "q2 = 10 * q3 + r2" unfolding q3_def r2_def by simp
  have "1000 * q3 + 100 * r2 + 10 * r1 + r0 = n" using e1 e2 e3 by linarith
  then show ?thesis unfolding div100 div1000 q1_def q2_def q3_def r0_def r1_def r2_def .
qed

lemma div1000_less: "n < 10000 \<Longrightarrow> (n::nat) div 1000 < 10"
  by (simp add: less_mult_imp_div_less)

lemma is_digit_iff: "is_digit c \<longleftrightarrow> 48 \<le> (of_char c :: nat) \<and> (of_char c :: nat) \<le> 57"
  by (simp add: is_digit_def less_eq_char_def)

lemma of_char_digit_char: "d < 10 \<Longrightarrow> (of_char (digit_char d) :: nat) = 48 + d"
  by (simp add: digit_char_def)

lemma is_digit_digit_char: "d < 10 \<Longrightarrow> is_digit (digit_char d)"
  by (simp add: is_digit_iff of_char_digit_char)

lemma digit_val_digit_char: "d < 10 \<Longrightarrow> digit_val (digit_char d) = d"
  by (simp add: digit_val_def of_char_digit_char)

lemma digit_char_digit_val: "is_digit c \<Longrightarrow> digit_char (digit_val c) = c"
  by (simp add: is_digit_iff digit_val_def digit_char_def)

lemma digit_val_less: "is_digit c \<Longrightarrow> digit_val c < 10"
  by (auto simp: is_digit_iff digit_val_def)

lemma digit_char_less: "a < 10 \<Longrightarrow> b < 10 \<Longrightarrow> digit_char a < digit_char b \<longleftrightarrow> a < b"
  by (simp add: less_char_def of_char_digit_char)

lemma digit_char_eq: "a < 10 \<Longrightarrow> b < 10 \<Longrightarrow> digit_char a = digit_char b \<longleftrightarrow> a = b"
proof
  assume "a < 10" "b < 10" "digit_char a = digit_char b"
  then have "digit_val (digit_char a) = digit_val (digit_char b)" by simp
  with \<open>a < 10\<close> \<open>b < 10\<close> show "a = b" by (simp add: digit_val_digit_char)
qed simp

lemma digits_val2: "digits_val [a, b] = 10 * digit_val a + digit_val b"
  by (simp add: digits_val_def)

lemma digits_val4:
  "digits_val [a, b, c, d] = 1000 * digit_val a + 100 * digit_val b + 10 * digit_val c + digit_val d"
  by (simp add: digits_val_def)

lemma digits_val_pad2: "n < 100 \<Longrightarrow> digits_val (pad2 n) = n"
  by (simp add: pad2_def digits_val2 digit_val_digit_char)

lemma digits_val_pad4:
  assumes "n < 10000"
  shows "digits_val (pad4 n) = n"
proof -
  have "n div 1000 < 10" using assms by (rule div1000_less)
  then show ?thesis
    using digits4_sum[of n] by (simp add: pad4_def digits_val4 digit_val_digit_char)
qed

lemma pad2_digits_val:
  assumes "is_digit a" "is_digit b"
  shows "pad2 (digits_val [a, b]) = [a, b]" "digits_val [a, b] < 100"
  using assms digit_val_less[of a] digit_val_less[of b]
  by (simp_all add: pad2_def digits_val2 digit_char_digit_val)

lemma pad4_digits_val:
  assumes "is_digit a" "is_digit b" "is_digit c" "is_digit d"
  shows "pad4 (digits_val [a, b, c, d]) = [a, b, c, d]" "digits_val [a, b, c, d] < 10000"
proof -
  let ?a = "digit_val a" and ?b = "digit_val b" and ?c = "digit_val c" and ?d = "digit_val d"
  have lt: "?a < 10" "?b < 10" "?c < 10" "?d < 10" using assms by (simp_all add: digit_val_less)
  show "pad4 (digits_val [a, b, c, d]) = [a, b, c, d]"
    unfolding pad4_def digits_val4 digits4_div_mod[OF lt(2,3,4)]
    using assms by (simp add: digit_char_digit_val)
  show "digits_val [a, b, c, d] < 10000" using lt by (simp add: digits_val4)
qed

lemma is_digit_pad2: "n < 100 \<Longrightarrow> list_all is_digit (pad2 n)"
  by (simp add: pad2_def is_digit_digit_char)

lemma is_digit_pad4: "n < 10000 \<Longrightarrow> list_all is_digit (pad4 n)"
  by (simp add: pad4_def is_digit_digit_char div1000_less)

section \<open>Start time strings\<close>

lemma month_cases:
  assumes "1 \<le> m" "m \<le> (12::nat)"
  shows "m \<in> {1, 2, 3, 4, 5, 6, 7, 8, 9, 10, 11, 12}"
  using assms by (simp; arith)

lemma days_in_month_bounds:
  assumes "1 \<le> m" "m \<le> 12"
  shows "28 \<le> days_in_month y m \<and> days_in_month y m \<le> 31"
  using month_cases[OF assms] by (auto simp: days_in_month_def)

lemma valid_datetime_ranges:
  assumes "valid_datetime dt"
  shows "year dt < 10000" "month dt < 100" "day dt < 100" "hour dt < 100" "minute dt < 100"
    "second dt < 100"
proof -
  from assms have m: "1 \<le> month dt" "month dt \<le> 12" by (simp_all add: valid_datetime_def)
  from days_in_month_bounds[OF m, of "year dt"] assms show "day dt < 100"
    by (simp add: valid_datetime_def)
qed (use assms in \<open>simp_all add: valid_datetime_def\<close>)

lemma is_digit_not_sep:
  assumes "is_digit c"
  shows "c \<noteq> CHR ''+''" "c \<noteq> CHR ''Z''" "c \<noteq> CHR ''-''" "c \<noteq> CHR '':''" "c \<noteq> CHR ''T''"
    "CHR ''+'' \<noteq> c" "CHR ''Z'' \<noteq> c" "CHR ''-'' \<noteq> c"
  using assms by (auto simp: is_digit_iff)

text \<open>The start time string of a datetime, written out.\<close>

lemma replace_offset_digits:
  assumes "list_all is_digit [y1, y2, y3, y4, m1, m2, d1, d2, h1, h2, n1, n2, s1, s2]"
  shows "replace ''+00:00'' ''Z''
           ([y1, y2, y3, y4] @ ''-'' @ [m1, m2] @ ''-'' @ [d1, d2] @ ''T'' @ [h1, h2] @ '':'' @
            [n1, n2] @ '':'' @ [s1, s2] @ ''+00:00'') =
         [y1, y2, y3, y4] @ ''-'' @ [m1, m2] @ ''-'' @ [d1, d2] @ ''T'' @ [h1, h2] @ '':'' @
            [n1, n2] @ '':'' @ [s1, s2] @ ''Z''"
  using assms by (simp add: is_digit_not_sep)

lemma replace_Z_digits:
  assumes "list_all is_digit [y1, y2, y3, y4, m1, m2, d1, d2, h1, h2, n1, n2, s1, s2]"
  shows "replace ''Z'' ''+00:00''
           ([y1, y2, y3, y4] @ ''-'' @ [m1, m2] @ ''-'' @ [d1, d2] @ ''T'' @ [h1, h2] @ '':'' @
            [n1, n2] @ '':'' @ [s1, s2] @ ''Z'') =
         [y1, y2, y3, y4] @ ''-'' @ [m1, m2] @ ''-'' @ [d1, d2] @ ''T'' @ [h1, h2] @ '':'' @
            [n1, n2] @ '':'' @ [s1, s2] @ ''+00:00''"
  using assms by (simp add: is_digit_not_sep)

section \<open>The calendar\<close>

lemma days_before_month_step:
  assumes "1 \<le> m" "m < 12"
  shows "days_before_month y (Suc m) = days_before_month y m + int (days_in_month y m)"
proof -
  from assms have "m \<in> {1, 2, 3, 4, 5, 6, 7, 8, 9, 10, 11}" by (simp; arith)
  then show ?thesis by (auto simp: days_before_month_def days_in_month_def)
qed

lemma days_before_month_mono:
  assumes "1 \<le> m" "m \<le> m'" "m' \<le> 12"
  shows "days_before_month y m \<le> days_before_month y m'"
  using assms(2,1,3)
proof (induction m' rule: dec_induct)
  case base
  then show ?case by simp
next
  case (step n)
  then have "days_before_month y (Suc n) = days_before_month y n + int (days_in_month y n)"
    by (intro days_before_month_step) simp_all
  with step show ?case by simp
qed

lemma days_before_month_nonneg: "1 \<le> m \<Longrightarrow> m \<le> 12 \<Longrightarrow> 0 \<le> days_before_month y m"
  using days_before_month_mono[of 1 m y] by (simp add: days_before_month_def)

lemma year_length:
  "days_before_month y 12 + int (days_in_month y 12) = 365 + (if is_leap y then 1 else 0)"
  by (simp add: days_before_month_def days_in_month_def)

lemma month_end_le_year_length:
  assumes "1 \<le> m" "m \<le> 12"
  shows "days_before_month y m + int (days_in_month y m) \<le> 365 + (if is_leap y then 1 else 0)"
proof (cases "m = 12")
  case True
  then show ?thesis using year_length[of y] by simp
next
  case False
  with assms have lt: "m < 12" by simp
  have "days_before_month y m + int (days_in_month y m) = days_before_month y (Suc m)"
    using days_before_month_step[OF assms(1) lt] by simp
  also have "\<dots> \<le> days_before_month y 12"
    using lt by (intro days_before_month_mono) simp_all
  also have "\<dots> \<le> 365 + (if is_leap y then 1 else 0)"
    using year_length[of y] by simp
  finally show ?thesis .
qed

lemma days_before_year_Suc:
  "days_before_year (Suc (Suc y)) =
     days_before_year (Suc y) + 365 + (if is_leap (Suc y) then 1 else 0)"
proof -
  let ?n = "Suc y"
  have s: "?n div k = (if ?n mod k = 0 then Suc (y div k) else y div k)" for k
    by (rule div_Suc)
  have m4: "?n mod 4 = 0" if "?n mod 100 = 0"
  proof -
    have "?n mod 100 mod 4 = ?n mod 4" by (rule mod_mod_cancel) simp
    with that show ?thesis by simp
  qed
  have m100: "?n mod 100 = 0" if "?n mod 400 = 0"
  proof -
    have "?n mod 400 mod 100 = ?n mod 100" by (rule mod_mod_cancel) simp
    with that show ?thesis by simp
  qed
  have l: "days_before_year (Suc ?n) =
      int ?n * 365 + int (?n div 4) - int (?n div 100) + int (?n div 400)"
    by (simp add: days_before_year_def Let_def zdiv_int)
  have r: "days_before_year ?n =
      int y * 365 + int (y div 4) - int (y div 100) + int (y div 400)"
    by (simp add: days_before_year_def Let_def zdiv_int)
  show ?thesis
    unfolding l r s[of 4] s[of 100] s[of 400] is_leap_def
    using m4 m100 by auto
qed

lemma days_before_year_step:
  assumes "1 \<le> y"
  shows "days_before_year (Suc y) = days_before_year y + 365 + (if is_leap y then 1 else 0)"
proof -
  from assms obtain y0 where "y = Suc y0" by (cases y) auto
  then show ?thesis using days_before_year_Suc[of y0] by simp
qed

lemma days_before_year_mono:
  assumes "1 \<le> y" "y \<le> y'"
  shows "days_before_year y \<le> days_before_year y'"
  using assms(2,1)
proof (induction y' rule: dec_induct)
  case base
  then show ?case by simp
next
  case (step n)
  then have "days_before_year (Suc n) = days_before_year n + 365 + (if is_leap n then 1 else 0)"
    by (intro days_before_year_step) simp
  with step show ?case by simp
qed

text \<open>The ordinal grows with the date.\<close>

lemma toordinal_less:
  assumes a: "valid_datetime a" and b: "valid_datetime b"
    and lt: "year a < year b \<or> year a = year b \<and>
             (month a < month b \<or> month a = month b \<and> day a < day b)"
  shows "toordinal a < toordinal b"
proof -
  from a have va: "1 \<le> year a" "1 \<le> month a" "month a \<le> 12" "1 \<le> day a"
    "day a \<le> days_in_month (year a) (month a)" by (simp_all add: valid_datetime_def)
  from b have vb: "1 \<le> year b" "1 \<le> month b" "month b \<le> 12" "1 \<le> day b"
    "day b \<le> days_in_month (year b) (month b)" by (simp_all add: valid_datetime_def)
  consider (y) "year a < year b" | (m) "year a = year b" "month a < month b"
    | (d) "year a = year b" "month a = month b" "day a < day b"
    using lt by blast
  then show ?thesis
  proof cases
    case y
    have "days_before_month (year a) (month a) + int (day a) \<le>
            365 + (if is_leap (year a) then 1 else 0)"
      using month_end_le_year_length[OF va(2,3), of "year a"] va(5) by simp
    then have "toordinal a \<le> days_before_year (Suc (year a))"
      using days_before_year_step[OF va(1)] by (simp add: toordinal_def)
    also have "\<dots> \<le> days_before_year (year b)"
      using y by (intro days_before_year_mono) simp_all
    also have "\<dots> < toordinal b"
      using days_before_month_nonneg[OF vb(2,3), of "year b"] vb(4) by (simp add: toordinal_def)
    finally show ?thesis .
  next
    case m
    then have lt12: "month a < 12" using vb(3) by simp
    have "days_before_month (year a) (month a) + int (day a) \<le>
            days_before_month (year a) (Suc (month a))"
      using days_before_month_step[OF va(2) lt12, of "year a"] va(5) by simp
    also have "\<dots> \<le> days_before_month (year a) (month b)"
      using m(2) vb(3) by (intro days_before_month_mono) simp_all
    finally show ?thesis using m(1) vb(4) by (simp add: toordinal_def)
  next
    case d
    then show ?thesis by (simp add: toordinal_def)
  qed
qed

section \<open>The order of the start time strings\<close>

lemma append_le_same_length:
  fixes u v :: "'a::linorder list"
  assumes "length u = length v"
  shows "u @ x \<le> v @ y \<longleftrightarrow> u < v \<or> u = v \<and> x \<le> y"
  using assms by (induction u v rule: list_induct2) auto

lemma length_pad2 [simp]: "length (pad2 n) = 2"
  by (simp add: pad2_def)

lemma length_pad4 [simp]: "length (pad4 n) = 4"
  by (simp add: pad4_def)

lemma lex_pair10:
  fixes q r q' r' :: nat
  assumes "r < 10" "r' < 10"
  shows "(q < q' \<or> q = q' \<and> r < r') \<longleftrightarrow> 10 * q + r < 10 * q' + r'"
  using assms by arith

lemma pad2_less_iff:
  assumes "m < 100" "n < 100"
  shows "pad2 m < pad2 n \<longleftrightarrow> m < n"
proof -
  have d: "m div 10 < 10" "n div 10 < 10" "m mod 10 < 10" "n mod 10 < 10"
    using assms by simp_all
  have "pad2 m < pad2 n \<longleftrightarrow>
        (m div 10 < n div 10 \<or> m div 10 = n div 10 \<and> m mod 10 < n mod 10)"
    by (simp add: pad2_def digit_char_less[OF d(1,2)] digit_char_eq[OF d(1,2)]
        digit_char_less[OF d(3,4)])
  also have "\<dots> \<longleftrightarrow> 10 * (m div 10) + m mod 10 < 10 * (n div 10) + n mod 10"
    by (rule lex_pair10[OF d(3,4)])
  also have "\<dots> \<longleftrightarrow> m < n" by simp
  finally show ?thesis .
qed

lemma pad2_eq_iff:
  assumes "m < 100" "n < 100"
  shows "pad2 m = pad2 n \<longleftrightarrow> m = n"
proof
  assume "pad2 m = pad2 n"
  then have "digits_val (pad2 m) = digits_val (pad2 n)" by (rule arg_cong)
  then show "m = n" unfolding digits_val_pad2[OF assms(1)] digits_val_pad2[OF assms(2)] .
qed simp

lemma pad4_less_iff:
  assumes "m < 10000" "n < 10000"
  shows "pad4 m < pad4 n \<longleftrightarrow> m < n"
proof -
  define a where "a = m div 1000" define b where "b = m div 100 mod 10"
  define c where "c = m div 10 mod 10" define d where "d = m mod 10"
  define a' where "a' = n div 1000" define b' where "b' = n div 100 mod 10"
  define c' where "c' = n div 10 mod 10" define d' where "d' = n mod 10"
  have lt: "a < 10" "b < 10" "c < 10" "d < 10" "a' < 10" "b' < 10" "c' < 10" "d' < 10"
    using assms by (simp_all add: a_def b_def c_def d_def a'_def b'_def c'_def d'_def div1000_less)
  have m: "m = 1000 * a + 100 * b + 10 * c + d"
    unfolding a_def b_def c_def d_def by (rule digits4_sum[symmetric])
  have n: "n = 1000 * a' + 100 * b' + 10 * c' + d'"
    unfolding a'_def b'_def c'_def d'_def by (rule digits4_sum[symmetric])
  have "pad4 m < pad4 n \<longleftrightarrow>
     (a < a' \<or> a = a' \<and> (b < b' \<or> b = b' \<and> (c < c' \<or> c = c' \<and> d < d')))"
    unfolding pad4_def a_def[symmetric] b_def[symmetric] c_def[symmetric] d_def[symmetric]
      a'_def[symmetric] b'_def[symmetric] c'_def[symmetric] d'_def[symmetric]
    using lt by (simp add: digit_char_less digit_char_eq)
  also have "\<dots> \<longleftrightarrow> m < n"
    unfolding m n using lt by arith
  finally show ?thesis .
qed

lemma pad4_eq_iff:
  assumes "m < 10000" "n < 10000"
  shows "pad4 m = pad4 n \<longleftrightarrow> m = n"
proof
  assume "pad4 m = pad4 n"
  then have "digits_val (pad4 m) = digits_val (pad4 n)" by (rule arg_cong)
  then show "m = n" unfolding digits_val_pad4[OF assms(1)] digits_val_pad4[OF assms(2)] .
qed simp

lemma pad2_zero: "pad2 0 = ''00''"
  by code_simp

lemma pad2_chars:
  assumes "n < 100"
  obtains a b where "pad2 n = [a, b]" "is_digit a" "is_digit b" "digits_val [a, b] = n"
proof -
  have "list_all is_digit (pad2 n)" using assms by (rule is_digit_pad2)
  moreover have "digits_val (pad2 n) = n" using assms by (rule digits_val_pad2)
  ultimately show thesis using that[of "digit_char (n div 10)" "digit_char (n mod 10)"]
    by (simp add: pad2_def)
qed

lemma pad4_chars:
  assumes "n < 10000"
  obtains a b c d where "pad4 n = [a, b, c, d]" "is_digit a" "is_digit b" "is_digit c"
    "is_digit d" "digits_val [a, b, c, d] = n"
proof -
  have "list_all is_digit (pad4 n)" using assms by (rule is_digit_pad4)
  moreover have "digits_val (pad4 n) = n" using assms by (rule digits_val_pad4)
  ultimately show thesis
    using that[of "digit_char (n div 1000)" "digit_char (n div 100 mod 10)"
        "digit_char (n div 10 mod 10)" "digit_char (n mod 10)"]
    by (simp add: pad4_def)
qed

text \<open>The two replacements, on a date and time followed by an offset.\<close>

lemma replace_offset_general:
  assumes "list_all is_digit [y1, y2, y3, y4, m1, m2, d1, d2, h1, h2, n1, n2, s1, s2,
                              z1, z2, z3, z4]"
  shows "replace ''+00:00'' ''Z''
           [y1, y2, y3, y4, CHR ''-'', m1, m2, CHR ''-'', d1, d2, CHR ''T'', h1, h2, CHR '':'',
            n1, n2, CHR '':'', s1, s2, p, z1, z2, CHR '':'', z3, z4] =
         (if [p, z1, z2, z3, z4] = ''+0000''
          then [y1, y2, y3, y4, CHR ''-'', m1, m2, CHR ''-'', d1, d2, CHR ''T'', h1, h2, CHR '':'',
                n1, n2, CHR '':'', s1, s2, CHR ''Z'']
          else [y1, y2, y3, y4, CHR ''-'', m1, m2, CHR ''-'', d1, d2, CHR ''T'', h1, h2, CHR '':'',
                n1, n2, CHR '':'', s1, s2, p, z1, z2, CHR '':'', z3, z4])"
  using assms by (auto simp: is_digit_not_sep)

lemma replace_Z_general:
  assumes "list_all is_digit [y1, y2, y3, y4, m1, m2, d1, d2, h1, h2, n1, n2, s1, s2,
                              z1, z2, z3, z4]"
    and "p = CHR ''+'' \<or> p = CHR ''-''"
  shows "replace ''Z'' ''+00:00''
           [y1, y2, y3, y4, CHR ''-'', m1, m2, CHR ''-'', d1, d2, CHR ''T'', h1, h2, CHR '':'',
            n1, n2, CHR '':'', s1, s2, p, z1, z2, CHR '':'', z3, z4] =
           [y1, y2, y3, y4, CHR ''-'', m1, m2, CHR ''-'', d1, d2, CHR ''T'', h1, h2, CHR '':'',
            n1, n2, CHR '':'', s1, s2, p, z1, z2, CHR '':'', z3, z4]"
  using assms by (auto simp: is_digit_not_sep)

lemma replace_Z_digits':
  assumes "list_all is_digit [y1, y2, y3, y4, m1, m2, d1, d2, h1, h2, n1, n2, s1, s2]"
  shows "replace ''Z'' ''+00:00''
         [y1, y2, y3, y4, CHR ''-'', m1, m2, CHR ''-'', d1, d2, CHR ''T'', h1, h2, CHR '':'',
            n1, n2, CHR '':'', s1, s2, CHR ''Z''] =
           [y1, y2, y3, y4, CHR ''-'', m1, m2, CHR ''-'', d1, d2, CHR ''T'', h1, h2, CHR '':'',
            n1, n2, CHR '':'', s1, s2, CHR ''+'', CHR ''0'', CHR ''0'', CHR '':'', CHR ''0'', CHR ''0'']"
  using replace_Z_digits[OF assms] by simp

text \<open>Reading back what \<open>isoformat\<close> wrote.\<close>

lemma offset_parts:
  fixes off :: int
  assumes "- 1440 < off" "off < 1440"
  shows "nat \<bar>off\<bar> div 60 < 100" "nat \<bar>off\<bar> mod 60 < 100"
    "(if off < 0 then - 1 else 1) *
       (int (nat \<bar>off\<bar> div 60) * 60 + int (nat \<bar>off\<bar> mod 60)) = off"
proof -
  have "nat \<bar>off\<bar> < 1440" using assms by simp
  then show "nat \<bar>off\<bar> div 60 < 100" by simp
  show "nat \<bar>off\<bar> mod 60 < 100"
    by (rule less_trans[OF mod_less_divisor]) simp_all
  have "int (nat \<bar>off\<bar> div 60) * 60 + int (nat \<bar>off\<bar> mod 60) = int (nat \<bar>off\<bar>)"
    by (simp add: of_nat_div of_nat_mod)
  then show "(if off < 0 then - 1 else 1) *
       (int (nat \<bar>off\<bar> div 60) * 60 + int (nat \<bar>off\<bar> mod 60)) = off"
    by simp
qed

lemma start_datetime_start_time_of:
  assumes "valid_datetime dt"
  shows "start_datetime (start_time_of dt) = Inr dt"
proof -
  note r = valid_datetime_ranges[OF assms]
  from assms have o: "- 1440 < utcoffset dt" "utcoffset dt < 1440"
    by (simp_all add: valid_datetime_def)
  note ofs = offset_parts[OF o]
  define p where "p = (if utcoffset dt < 0 then CHR ''-'' else CHR ''+'')"
  have p: "p = CHR ''+'' \<or> p = CHR ''-''" by (simp add: p_def)
  from r(1) obtain y1 y2 y3 y4 where y: "pad4 (year dt) = [y1, y2, y3, y4]" "is_digit y1"
    "is_digit y2" "is_digit y3" "is_digit y4" "digits_val [y1, y2, y3, y4] = year dt"
    by (rule pad4_chars)
  from r(2) obtain m1 m2 where m: "pad2 (month dt) = [m1, m2]" "is_digit m1" "is_digit m2"
    "digits_val [m1, m2] = month dt" by (rule pad2_chars)
  from r(3) obtain d1 d2 where d: "pad2 (day dt) = [d1, d2]" "is_digit d1" "is_digit d2"
    "digits_val [d1, d2] = day dt" by (rule pad2_chars)
  from r(4) obtain h1 h2 where h: "pad2 (hour dt) = [h1, h2]" "is_digit h1" "is_digit h2"
    "digits_val [h1, h2] = hour dt" by (rule pad2_chars)
  from r(5) obtain n1 n2 where n: "pad2 (minute dt) = [n1, n2]" "is_digit n1" "is_digit n2"
    "digits_val [n1, n2] = minute dt" by (rule pad2_chars)
  from r(6) obtain s1 s2 where s: "pad2 (second dt) = [s1, s2]" "is_digit s1" "is_digit s2"
    "digits_val [s1, s2] = second dt" by (rule pad2_chars)
  from ofs(1) obtain z1 z2 where zh: "pad2 (nat \<bar>utcoffset dt\<bar> div 60) = [z1, z2]"
    "is_digit z1" "is_digit z2" "digits_val [z1, z2] = nat \<bar>utcoffset dt\<bar> div 60"
    by (rule pad2_chars)
  from ofs(2) obtain z3 z4 where zm: "pad2 (nat \<bar>utcoffset dt\<bar> mod 60) = [z3, z4]"
    "is_digit z3" "is_digit z4" "digits_val [z3, z4] = nat \<bar>utcoffset dt\<bar> mod 60"
    by (rule pad2_chars)
  have dg: "list_all is_digit [y1, y2, y3, y4, m1, m2, d1, d2, h1, h2, n1, n2, s1, s2,
                               z1, z2, z3, z4]"
    using y m d h n s zh zm by simp
  have dg': "list_all is_digit [y1, y2, y3, y4, m1, m2, d1, d2, h1, h2, n1, n2, s1, s2]"
    using dg by simp
  let ?iso = "[y1, y2, y3, y4, CHR ''-'', m1, m2, CHR ''-'', d1, d2, CHR ''T'', h1, h2, CHR '':'',
               n1, n2, CHR '':'', s1, s2, p, z1, z2, CHR '':'', z3, z4]"
  have iso: "isoformat dt = ?iso"
    unfolding isoformat_def y(1) m(1) d(1) h(1) n(1) s(1) zh(1) zm(1) p_def by simp
  have rt: "replace ''Z'' ''+00:00'' (replace ''+00:00'' ''Z'' ?iso) = ?iso"
  proof (cases "[p, z1, z2, z3, z4] = ''+0000''")
    case True
    then show ?thesis
      unfolding replace_offset_general[OF dg] using replace_Z_digits'[OF dg'] by simp
  next
    case False
    then show ?thesis
      unfolding replace_offset_general[OF dg] using replace_Z_general[OF dg p] by simp
  qed
  have sgn: "(if p = CHR ''-'' then - 1 else 1) = (if utcoffset dt < 0 then - 1 else (1::int))"
    by (simp add: p_def)
  have off: "(if p = CHR ''-'' then - 1 else 1) *
      (int (digits_val [z1, z2]) * 60 + int (digits_val [z3, z4])) = utcoffset dt"
    unfolding sgn zh(4) zm(4) by (rule ofs(3))
  have rec: "\<lparr>year = year dt, month = month dt, day = day dt, hour = hour dt,
             minute = minute dt, second = second dt, utcoffset = utcoffset dt\<rparr> = dt"
    by simp
  have "fromisoformat ?iso = Inr dt"
    using dg p assms by (simp add: y(6) m(4) d(4) h(4) n(4) s(4) off rec)
  then show ?thesis
    unfolding start_datetime_def start_time_of_def iso rt .
qed

text \<open>The start time string of a valid UTC datetime, written out.\<close>

lemma start_time_of_eq:
  assumes "valid_datetime dt" and "utcoffset dt = 0"
  shows "start_time_of dt =
           pad4 (year dt) @ ''-'' @ pad2 (month dt) @ ''-'' @ pad2 (day dt) @ ''T'' @
           pad2 (hour dt) @ '':'' @ pad2 (minute dt) @ '':'' @ pad2 (second dt) @ ''Z''"
proof -
  note r = valid_datetime_ranges[OF assms(1)]
  have d: "list_all is_digit (pad4 (year dt))" "list_all is_digit (pad2 (month dt))"
    "list_all is_digit (pad2 (day dt))" "list_all is_digit (pad2 (hour dt))"
    "list_all is_digit (pad2 (minute dt))" "list_all is_digit (pad2 (second dt))"
    using r by (simp_all add: is_digit_pad2 is_digit_pad4)
  have z: "is_digit CHR ''0''" by (simp add: is_digit_iff)
  show ?thesis
    using d z unfolding start_time_of_def isoformat_def assms(2)
    by (simp add: pad2_zero) (simp add: pad2_def pad4_def replace_offset_general del: replace.simps)
qed

text \<open>The order of the start time strings is the order of the dates and times.\<close>

lemma start_time_of_le_iff:
  assumes a: "valid_datetime a" "utcoffset a = 0" and b: "valid_datetime b" "utcoffset b = 0"
  shows "start_time_of a \<le> start_time_of b \<longleftrightarrow>
    (year a < year b \<or> year a = year b \<and>
      (month a < month b \<or> month a = month b \<and>
        (day a < day b \<or> day a = day b \<and>
          (hour a < hour b \<or> hour a = hour b \<and>
            (minute a < minute b \<or> minute a = minute b \<and> second a \<le> second b)))))"
proof -
  note ra = valid_datetime_ranges[OF a(1)] and rb = valid_datetime_ranges[OF b(1)]
  have last: "pad2 (second a) @ ''Z'' \<le> pad2 (second b) @ ''Z'' \<longleftrightarrow> second a \<le> second b"
    using ra(6) rb(6)
    by (auto simp: append_le_same_length pad2_less_iff pad2_eq_iff)
  show ?thesis
    unfolding start_time_of_eq[OF a] start_time_of_eq[OF b]
    using ra rb last
    by (simp add: append_le_same_length pad2_less_iff pad2_eq_iff pad4_less_iff pad4_eq_iff)
qed

lemma time_of_day_bounds:
  assumes "valid_datetime dt"
  shows "0 \<le> int (second dt) + int (minute dt) * 60 + int (hour dt) * 3600"
    "int (second dt) + int (minute dt) * 60 + int (hour dt) * 3600 \<le> 86399"
  using assms by (simp_all add: valid_datetime_def)

lemma total_seconds_nonneg:
  assumes a: "valid_datetime a" "utcoffset a = 0" and b: "valid_datetime b" "utcoffset b = 0"
    and le: "start_time_of a \<le> start_time_of b"
  shows "0 \<le> total_seconds b a"
proof -
  from le have lex:
    "year a < year b \<or> year a = year b \<and>
      (month a < month b \<or> month a = month b \<and>
        (day a < day b \<or> day a = day b \<and>
          (hour a < hour b \<or> hour a = hour b \<and>
            (minute a < minute b \<or> minute a = minute b \<and> second a \<le> second b))))"
    by (simp only: start_time_of_le_iff[OF a b])
  let ?ta = "int (second a) + int (minute a) * 60 + int (hour a) * 3600"
  let ?tb = "int (second b) + int (minute b) * 60 + int (hour b) * 3600"
  consider (date) "year a < year b \<or> year a = year b \<and>
             (month a < month b \<or> month a = month b \<and> day a < day b)"
    | (time) "year a = year b" "month a = month b" "day a = day b"
        "hour a < hour b \<or> hour a = hour b \<and>
            (minute a < minute b \<or> minute a = minute b \<and> second a \<le> second b)"
    using lex by blast
  then show ?thesis
  proof cases
    case date
    from toordinal_less[OF a(1) b(1) date] have "toordinal a + 1 \<le> toordinal b" by simp
    then have "86400 \<le> (toordinal b - toordinal a) * 86400" by simp
    with time_of_day_bounds[OF a(1)] time_of_day_bounds[OF b(1)]
    show ?thesis by (simp add: total_seconds_def a(2) b(2))
  next
    case time
    have o: "toordinal a = toordinal b" using time(1-3) by (simp add: toordinal_def)
    from a b have "minute a \<le> 59" "second a \<le> 59" "minute b \<le> 59" "second b \<le> 59"
      by (simp_all add: valid_datetime_def)
    with time(4) have "?ta \<le> ?tb" by auto
    then show ?thesis by (simp add: total_seconds_def o a(2) b(2))
  qed
qed

lemma whole_minutes_nonneg: "0 \<le> secs \<Longrightarrow> 0 \<le> whole_minutes secs"
  by (simp add: whole_minutes_def)

section \<open>Properties of the duration calculator\<close>

lemma without_duration_set_duration [simp]: "without_duration (set_duration s d) = s"
  by (simp add: without_duration_def set_duration_def)

lemma duration_set_duration [simp]: "duration (set_duration s d) = d"
  by (simp add: set_duration_def)

lemma startTime_set_duration [simp]: "startTime (set_duration s d) = startTime s"
  by (simp add: set_duration_def)

lemma startTime_without_duration [simp]: "startTime (without_duration s) = startTime s"
  by (simp add: without_duration_def)

lemma category_without_duration [simp]: "category (without_duration s) = category s"
  by (simp add: without_duration_def)

lemma assembled_start_datetime:
  assumes "\<exists>dt. valid_datetime dt \<and> startTime s = start_time_of dt"
  shows "\<exists>dt. valid_datetime dt \<and> startTime s = start_time_of dt \<and>
           start_datetime (startTime s) = Inr dt"
  using assms start_datetime_start_time_of by auto

text \<open>What the loop computes, on start times that the program wrote.\<close>

lemma durations_loop_spec:
  assumes "\<forall>s \<in> set ss. \<exists>dt. valid_datetime dt \<and> startTime s = start_time_of dt"
  shows "\<exists>out. durations_loop ss = Inr out \<and> map without_duration out = ss \<and>
           (\<forall>i. Suc i < length ss \<longrightarrow>
              (\<exists>cur nxt. start_datetime (startTime (ss ! i)) = Inr cur \<and>
                 start_datetime (startTime (ss ! Suc i)) = Inr nxt \<and>
                 duration (out ! i) = min 240 (whole_minutes (total_seconds nxt cur)))) \<and>
           (ss \<noteq> [] \<longrightarrow> duration (last out) = 30)"
  using assms
proof (induction ss rule: durations_loop.induct)
  case 1
  then show ?case by simp
next
  case (2 s)
  then show ?case by simp
next
  case (3 s t rest)
  from 3(2) obtain cur where cur: "start_datetime (startTime s) = Inr cur"
    using assembled_start_datetime[of s] by auto
  from 3(2) obtain nxt where nxt: "start_datetime (startTime t) = Inr nxt"
    using assembled_start_datetime[of t] by auto
  let ?d = "min (whole_minutes (total_seconds nxt cur)) 240"
  have "\<forall>s \<in> set (t # rest). \<exists>dt. valid_datetime dt \<and> startTime s = start_time_of dt"
    using 3(2) by simp
  from 3(1)[OF cur nxt refl this]
  obtain out where out: "durations_loop (t # rest) = Inr out"
    "map without_duration out = t # rest"
    "\<forall>i. Suc i < length (t # rest) \<longrightarrow>
        (\<exists>cur nxt. start_datetime (startTime ((t # rest) ! i)) = Inr cur \<and>
           start_datetime (startTime ((t # rest) ! Suc i)) = Inr nxt \<and>
           duration (out ! i) = min 240 (whole_minutes (total_seconds nxt cur)))"
    "duration (last out) = 30"
    by auto
  from out(2) have ne: "out \<noteq> []" by auto
  have run: "durations_loop (s # t # rest) = Inr (set_duration s ?d # out)"
    by (simp add: cur nxt out(1) Let_def)
  have idx: "\<exists>cur nxt. start_datetime (startTime ((s # t # rest) ! i)) = Inr cur \<and>
                 start_datetime (startTime ((s # t # rest) ! Suc i)) = Inr nxt \<and>
                 duration ((set_duration s ?d # out) ! i) =
                   min 240 (whole_minutes (total_seconds nxt cur))"
    if "Suc i < length (s # t # rest)" for i
  proof (cases i)
    case 0
    then show ?thesis using cur nxt by (simp add: min.commute)
  next
    case (Suc j)
    with that have "Suc j < length (t # rest)" by simp
    with out(3) show ?thesis unfolding Suc by simp
  qed
  show ?case
    unfolding run using out(2,4) ne idx by simp
qed

lemma durations_loop_bounds:
  assumes "\<forall>s \<in> set ss. \<exists>dt. valid_datetime dt \<and> utcoffset dt = 0 \<and>
             startTime s = start_time_of dt"
    and "sorted (map startTime ss)"
    and "durations_loop ss = Inr out"
  shows "\<forall>s \<in> set out. 0 \<le> duration s \<and> duration s \<le> 240"
  using assms
proof (induction ss arbitrary: out rule: durations_loop.induct)
  case 1
  then show ?case by simp
next
  case (2 s)
  then show ?case by auto
next
  case (3 s t rest)
  from 3(2) obtain a where a: "valid_datetime a" "utcoffset a = 0"
    "startTime s = start_time_of a"
    by auto
  from 3(2) obtain b where b: "valid_datetime b" "utcoffset b = 0"
    "startTime t = start_time_of b"
    by auto
  have sa: "start_datetime (startTime s) = Inr a"
    unfolding a(3) using a(1) by (rule start_datetime_start_time_of)
  have sb: "start_datetime (startTime t) = Inr b"
    unfolding b(3) using b(1) by (rule start_datetime_start_time_of)
  have le: "start_time_of a \<le> start_time_of b"
    using 3(3) a(3) b(3) by simp
  have nonneg: "0 \<le> whole_minutes (total_seconds b a)"
    by (intro whole_minutes_nonneg total_seconds_nonneg a(1,2) b(1,2) le)
  let ?d = "min (whole_minutes (total_seconds b a)) 240"
  from 3(4) obtain out' where out': "durations_loop (t # rest) = Inr out'"
    "out = set_duration s ?d # out'"
    by (auto simp: sa sb Let_def split: sum.splits)
  have "\<forall>s \<in> set (t # rest). \<exists>dt. valid_datetime dt \<and> utcoffset dt = 0 \<and>
          startTime s = start_time_of dt"
    using 3(2) by simp
  moreover have "sorted (map startTime (t # rest))" using 3(3) by simp
  ultimately have "\<forall>s \<in> set out'. 0 \<le> duration s \<and> duration s \<le> 240"
    using 3(1)[OF sa sb refl _ _ out'(1)] by blast
  then show ?case unfolding out'(2) using nonneg by simp
qed

text \<open>
  Claim C2. On sessions whose start times were written by the program,
  \<open>calculate_durations\<close> returns the sessions sorted by start time (a stable sort of the
  start time strings); every session but the last gets the whole minutes from its start
  time to the next one's, capped at 240, and the last one gets 30.
\<close>

theorem calculate_durations_spec:
  assumes "\<forall>s \<in> set ss. \<exists>dt. valid_datetime dt \<and> startTime s = start_time_of dt"
  shows "\<exists>out. calculate_durations ss = Inr out \<and>
           map without_duration out = sort_key startTime ss \<and>
           sorted (map startTime out) \<and>
           (\<forall>i. Suc i < length out \<longrightarrow>
              (\<exists>cur nxt. start_datetime (startTime (out ! i)) = Inr cur \<and>
                 start_datetime (startTime (out ! Suc i)) = Inr nxt \<and>
                 duration (out ! i) = min 240 (whole_minutes (total_seconds nxt cur)))) \<and>
           (out \<noteq> [] \<longrightarrow> duration (last out) = 30)"
proof -
  let ?ss = "sort_key startTime ss"
  have "\<forall>s \<in> set ?ss. \<exists>dt. valid_datetime dt \<and> startTime s = start_time_of dt"
    using assms by simp
  from durations_loop_spec[OF this]
  obtain out where out: "durations_loop ?ss = Inr out" "map without_duration out = ?ss"
    "\<forall>i. Suc i < length ?ss \<longrightarrow>
        (\<exists>cur nxt. start_datetime (startTime (?ss ! i)) = Inr cur \<and>
           start_datetime (startTime (?ss ! Suc i)) = Inr nxt \<and>
           duration (out ! i) = min 240 (whole_minutes (total_seconds nxt cur)))"
    "?ss \<noteq> [] \<longrightarrow> duration (last out) = 30"
    by blast
  have len: "length out = length ?ss" using out(2) by (metis length_map)
  have st: "startTime (out ! i) = startTime (?ss ! i)" if "i < length out" for i
  proof -
    have "?ss ! i = without_duration (out ! i)"
      using that out(2) by (metis nth_map)
    then show ?thesis by simp
  qed
  have "map startTime out = map startTime (map without_duration out)" by simp
  then have srt: "sorted (map startTime out)"
    unfolding out(2) by (simp add: sorted_sort_key)
  have idx: "\<forall>i. Suc i < length out \<longrightarrow>
              (\<exists>cur nxt. start_datetime (startTime (out ! i)) = Inr cur \<and>
                 start_datetime (startTime (out ! Suc i)) = Inr nxt \<and>
                 duration (out ! i) = min 240 (whole_minutes (total_seconds nxt cur)))"
  proof (intro allI impI)
    fix i assume i: "Suc i < length out"
    then have "Suc i < length ?ss" by (simp add: len)
    with out(3) obtain cur nxt where "start_datetime (startTime (?ss ! i)) = Inr cur"
      "start_datetime (startTime (?ss ! Suc i)) = Inr nxt"
      "duration (out ! i) = min 240 (whole_minutes (total_seconds nxt cur))" by blast
    moreover have "startTime (out ! i) = startTime (?ss ! i)" using i by (intro st) simp
    moreover have "startTime (out ! Suc i) = startTime (?ss ! Suc i)" using i by (intro st)
    ultimately show "\<exists>cur nxt. start_datetime (startTime (out ! i)) = Inr cur \<and>
                 start_datetime (startTime (out ! Suc i)) = Inr nxt \<and>
                 duration (out ! i) = min 240 (whole_minutes (total_seconds nxt cur))"
      by simp
  qed
  have lst: "out \<noteq> [] \<longrightarrow> duration (last out) = 30"
    using out(2,4) by (metis map_is_Nil_conv)
  show ?thesis
    unfolding calculate_durations_def using out(1,2) srt idx lst by blast
qed

theorem calculate_durations_spec_witness:
  "valid_datetime \<lparr>year = 2024, month = 1, day = 15, hour = 9, minute = 45, second = 0,
     utcoffset = 0\<rparr> \<and>
   start_time_of \<lparr>year = 2024, month = 1, day = 15, hour = 9, minute = 45, second = 0,
     utcoffset = 0\<rparr> =
     ''2024-01-15T09:45:00Z'' \<and>
   valid_datetime \<lparr>year = 2024, month = 1, day = 16, hour = 8, minute = 0, second = 0,
     utcoffset = 0\<rparr> \<and>
   start_time_of \<lparr>year = 2024, month = 1, day = 16, hour = 8, minute = 0, second = 0,
     utcoffset = 0\<rparr> =
     ''2024-01-16T08:00:00Z'' \<and>
   valid_datetime \<lparr>year = 2024, month = 1, day = 15, hour = 9, minute = 0, second = 0,
     utcoffset = 0\<rparr> \<and>
   start_time_of \<lparr>year = 2024, month = 1, day = 15, hour = 9, minute = 0, second = 0,
     utcoffset = 0\<rparr> =
     ''2024-01-15T09:00:00Z'' \<and>
   calculate_durations
     [\<lparr>category = ''debug'', title = JString ''Fix Bug'', startTime = ''2024-01-15T09:45:00Z'',
       confidence = ''high'', filename = ''2024-01-15_09-45Z-fix-bug.md'', preview = JString ''why''\<rparr>,
      \<lparr>category = ''plan'', title = JString ''Plan Day'', startTime = ''2024-01-16T08:00:00Z'',
       confidence = ''high'', filename = ''2024-01-16_08-00Z-plan-day.md'', preview = JString ''next''\<rparr>,
      \<lparr>category = ''codegen'', title = JString ''Foo Bar'', startTime = ''2024-01-15T09:00:00Z'',
       confidence = ''medium'', filename = ''2024-01-15_09-00Z-foo-bar.md'',
       preview = JString ''create me''\<rparr>] =
   Inr
     [\<lparr>category = ''codegen'', title = JString ''Foo Bar'', startTime = ''2024-01-15T09:00:00Z'',
       confidence = ''medium'', filename = ''2024-01-15_09-00Z-foo-bar.md'',
       preview = JString ''create me'', duration = 45\<rparr>,
      \<lparr>category = ''debug'', title = JString ''Fix Bug'', startTime = ''2024-01-15T09:45:00Z'',
       confidence = ''high'', filename = ''2024-01-15_09-45Z-fix-bug.md'', preview = JString ''why'',
       duration = 240\<rparr>,
      \<lparr>category = ''plan'', title = JString ''Plan Day'', startTime = ''2024-01-16T08:00:00Z'',
       confidence = ''high'', filename = ''2024-01-16_08-00Z-plan-day.md'', preview = JString ''next'',
       duration = 30\<rparr>] \<and>
   sorted [''2024-01-15T09:00:00Z'', ''2024-01-15T09:45:00Z'', ''2024-01-16T08:00:00Z'']"
proof -
  let ?dA = "\<lparr>year = 2024, month = 1, day = 15, hour = 9, minute = 45, second = 0,
     utcoffset = 0\<rparr>"
  let ?dC = "\<lparr>year = 2024, month = 1, day = 16, hour = 8, minute = 0, second = 0,
     utcoffset = 0\<rparr>"
  let ?dB = "\<lparr>year = 2024, month = 1, day = 15, hour = 9, minute = 0, second = 0,
     utcoffset = 0\<rparr>"
  let ?A = "\<lparr>category = ''debug'', title = JString ''Fix Bug'', startTime = ''2024-01-15T09:45:00Z'',
       confidence = ''high'', filename = ''2024-01-15_09-45Z-fix-bug.md'', preview = JString ''why''\<rparr>"
  let ?C = "\<lparr>category = ''plan'', title = JString ''Plan Day'', startTime = ''2024-01-16T08:00:00Z'',
       confidence = ''high'', filename = ''2024-01-16_08-00Z-plan-day.md'', preview = JString ''next''\<rparr>"
  let ?B = "\<lparr>category = ''codegen'', title = JString ''Foo Bar'', startTime = ''2024-01-15T09:00:00Z'',
       confidence = ''medium'', filename = ''2024-01-15_09-00Z-foo-bar.md'',
       preview = JString ''create me''\<rparr>"
  let ?out = "[set_duration ?B 45, set_duration ?A 240, set_duration ?C 30]"
  have vA: "valid_datetime ?dA" and vC: "valid_datetime ?dC" and vB: "valid_datetime ?dB"
    by code_simp+
  have sA: "start_time_of ?dA = ''2024-01-15T09:45:00Z''"
    and sC: "start_time_of ?dC = ''2024-01-16T08:00:00Z''"
    and sB: "start_time_of ?dB = ''2024-01-15T09:00:00Z''"
    by code_simp+
  have hA: "\<exists>dt. valid_datetime dt \<and> startTime ?A = start_time_of dt"
    using vA sA by (intro exI[of _ ?dA]) (simp only: draft.simps simp_thms)
  have hC: "\<exists>dt. valid_datetime dt \<and> startTime ?C = start_time_of dt"
    using vC sC by (intro exI[of _ ?dC]) (simp only: draft.simps simp_thms)
  have hB: "\<exists>dt. valid_datetime dt \<and> startTime ?B = start_time_of dt"
    using vB sB by (intro exI[of _ ?dB]) (simp only: draft.simps simp_thms)
  have h: "\<forall>s \<in> set [?A, ?C, ?B]. \<exists>dt. valid_datetime dt \<and> startTime s = start_time_of dt"
    using hA hC hB by (simp only: list.set ball_simps simp_thms)
  have E: "calculate_durations [?A, ?C, ?B] = Inr ?out"
    by code_simp
  from calculate_durations_spec[OF h]
  obtain out where o: "calculate_durations [?A, ?C, ?B] = Inr out" "sorted (map startTime out)"
    by blast
  from o(1) E have "out = ?out" by (simp only: sum.inject)
  with o(2) have "sorted (map startTime ?out)" by (simp only:)
  then have S: "sorted [''2024-01-15T09:00:00Z'', ''2024-01-15T09:45:00Z'', ''2024-01-16T08:00:00Z'']"
    by (simp only: list.map startTime_set_duration draft.simps)
  have E': "calculate_durations [?A, ?C, ?B] = Inr
     [\<lparr>category = ''codegen'', title = JString ''Foo Bar'', startTime = ''2024-01-15T09:00:00Z'',
       confidence = ''medium'', filename = ''2024-01-15_09-00Z-foo-bar.md'',
       preview = JString ''create me'', duration = 45\<rparr>,
      \<lparr>category = ''debug'', title = JString ''Fix Bug'', startTime = ''2024-01-15T09:45:00Z'',
       confidence = ''high'', filename = ''2024-01-15_09-45Z-fix-bug.md'', preview = JString ''why'',
       duration = 240\<rparr>,
      \<lparr>category = ''plan'', title = JString ''Plan Day'', startTime = ''2024-01-16T08:00:00Z'',
       confidence = ''high'', filename = ''2024-01-16_08-00Z-plan-day.md'', preview = JString ''next'',
       duration = 30\<rparr>]"
    using E by (simp only: set_duration_def draft.simps)
  show ?thesis
    by (intro conjI vA vB vC sA sB sC E' S)
qed

text \<open>
  Claim C10, as amended. On sessions whose start times are the ones the assembler writes
  (\<open>start_time_of\<close> of a valid UTC datetime, that is \<open>YYYY-MM-DDTHH:MM:SSZ\<close>), every
  duration that \<open>calculate_durations\<close> sets lies between 0 and 240, and the last one is 30:
  the list is sorted by start time string, and the order of these strings is the order of
  the dates and times, so no gap is negative.
\<close>

theorem durations_in_range:
  assumes "\<forall>s \<in> set ss. \<exists>dt. valid_datetime dt \<and> utcoffset dt = 0 \<and>
             startTime s = start_time_of dt"
  shows "\<exists>out. calculate_durations ss = Inr out \<and>
           (\<forall>s \<in> set out. 0 \<le> duration s \<and> duration s \<le> 240) \<and>
           (out \<noteq> [] \<longrightarrow> duration (last out) = 30)"
proof -
  let ?ss = "sort_key startTime ss"
  have a: "\<forall>s \<in> set ?ss. \<exists>dt. valid_datetime dt \<and> utcoffset dt = 0 \<and>
             startTime s = start_time_of dt"
    using assms by simp
  then have a': "\<forall>s \<in> set ?ss. \<exists>dt. valid_datetime dt \<and> startTime s = start_time_of dt"
    by blast
  from durations_loop_spec[OF a']
  obtain out where out: "durations_loop ?ss = Inr out" "map without_duration out = ?ss"
    "?ss \<noteq> [] \<longrightarrow> duration (last out) = 30"
    by blast
  have "sorted (map startTime ?ss)" by (simp add: sorted_sort_key)
  from durations_loop_bounds[OF a this out(1)]
  have "\<forall>s \<in> set out. 0 \<le> duration s \<and> duration s \<le> 240" .
  moreover have "out \<noteq> [] \<longrightarrow> duration (last out) = 30"
    using out(2,3) by (metis map_is_Nil_conv)
  ultimately show ?thesis
    unfolding calculate_durations_def using out(1) by blast
qed

theorem durations_in_range_witness:
  "valid_datetime \<lparr>year = 2024, month = 1, day = 15, hour = 9, minute = 45, second = 0,
     utcoffset = 0\<rparr> \<and>
   start_time_of \<lparr>year = 2024, month = 1, day = 15, hour = 9, minute = 45, second = 0,
     utcoffset = 0\<rparr> =
     ''2024-01-15T09:45:00Z'' \<and>
   valid_datetime \<lparr>year = 2024, month = 1, day = 15, hour = 9, minute = 0, second = 0,
     utcoffset = 0\<rparr> \<and>
   start_time_of \<lparr>year = 2024, month = 1, day = 15, hour = 9, minute = 0, second = 0,
     utcoffset = 0\<rparr> =
     ''2024-01-15T09:00:00Z'' \<and>
   calculate_durations
     [\<lparr>category = ''debug'', title = JString ''Fix Bug'', startTime = ''2024-01-15T09:45:00Z'',
       confidence = ''high'', filename = ''2024-01-15_09-45Z-fix-bug.md'', preview = JString ''why''\<rparr>,
      \<lparr>category = ''codegen'', title = JString ''Foo Bar'', startTime = ''2024-01-15T09:00:00Z'',
       confidence = ''medium'', filename = ''2024-01-15_09-00Z-foo-bar.md'',
       preview = JString ''create me''\<rparr>,
      \<lparr>category = ''codegen'', title = JString ''Foo Baz'', startTime = ''2024-01-15T09:00:00Z'',
       confidence = ''medium'', filename = ''2024-01-15_09-00Z-foo-baz.md'',
       preview = JString ''create it''\<rparr>] =
   Inr
     [\<lparr>category = ''codegen'', title = JString ''Foo Bar'', startTime = ''2024-01-15T09:00:00Z'',
       confidence = ''medium'', filename = ''2024-01-15_09-00Z-foo-bar.md'',
       preview = JString ''create me'', duration = 0\<rparr>,
      \<lparr>category = ''codegen'', title = JString ''Foo Baz'', startTime = ''2024-01-15T09:00:00Z'',
       confidence = ''medium'', filename = ''2024-01-15_09-00Z-foo-baz.md'',
       preview = JString ''create it'', duration = 45\<rparr>,
      \<lparr>category = ''debug'', title = JString ''Fix Bug'', startTime = ''2024-01-15T09:45:00Z'',
       confidence = ''high'', filename = ''2024-01-15_09-45Z-fix-bug.md'', preview = JString ''why'',
       duration = 30\<rparr>] \<and>
   list_all (\<lambda>s. 0 \<le> duration s \<and> duration s \<le> 240)
     [\<lparr>category = ''codegen'', title = JString ''Foo Bar'', startTime = ''2024-01-15T09:00:00Z'',
       confidence = ''medium'', filename = ''2024-01-15_09-00Z-foo-bar.md'',
       preview = JString ''create me'', duration = 0\<rparr>,
      \<lparr>category = ''codegen'', title = JString ''Foo Baz'', startTime = ''2024-01-15T09:00:00Z'',
       confidence = ''medium'', filename = ''2024-01-15_09-00Z-foo-baz.md'',
       preview = JString ''create it'', duration = 45\<rparr>,
      \<lparr>category = ''debug'', title = JString ''Fix Bug'', startTime = ''2024-01-15T09:45:00Z'',
       confidence = ''high'', filename = ''2024-01-15_09-45Z-fix-bug.md'', preview = JString ''why'',
       duration = 30\<rparr>]"
proof -
  let ?dA = "\<lparr>year = 2024, month = 1, day = 15, hour = 9, minute = 45, second = 0,
     utcoffset = 0\<rparr>"
  let ?dB = "\<lparr>year = 2024, month = 1, day = 15, hour = 9, minute = 0, second = 0,
     utcoffset = 0\<rparr>"
  let ?A = "\<lparr>category = ''debug'', title = JString ''Fix Bug'', startTime = ''2024-01-15T09:45:00Z'',
       confidence = ''high'', filename = ''2024-01-15_09-45Z-fix-bug.md'', preview = JString ''why''\<rparr>"
  let ?B = "\<lparr>category = ''codegen'', title = JString ''Foo Bar'', startTime = ''2024-01-15T09:00:00Z'',
       confidence = ''medium'', filename = ''2024-01-15_09-00Z-foo-bar.md'',
       preview = JString ''create me''\<rparr>"
  let ?B2 = "\<lparr>category = ''codegen'', title = JString ''Foo Baz'', startTime = ''2024-01-15T09:00:00Z'',
       confidence = ''medium'', filename = ''2024-01-15_09-00Z-foo-baz.md'',
       preview = JString ''create it''\<rparr>"
  let ?out = "[\<lparr>category = ''codegen'', title = JString ''Foo Bar'', startTime = ''2024-01-15T09:00:00Z'',
       confidence = ''medium'', filename = ''2024-01-15_09-00Z-foo-bar.md'',
       preview = JString ''create me'', duration = 0\<rparr>,
      \<lparr>category = ''codegen'', title = JString ''Foo Baz'', startTime = ''2024-01-15T09:00:00Z'',
       confidence = ''medium'', filename = ''2024-01-15_09-00Z-foo-baz.md'',
       preview = JString ''create it'', duration = 45\<rparr>,
      \<lparr>category = ''debug'', title = JString ''Fix Bug'', startTime = ''2024-01-15T09:45:00Z'',
       confidence = ''high'', filename = ''2024-01-15_09-45Z-fix-bug.md'', preview = JString ''why'',
       duration = 30\<rparr>]"
  have vA: "valid_datetime ?dA" and vB: "valid_datetime ?dB"
    by code_simp+
  have sA: "start_time_of ?dA = ''2024-01-15T09:45:00Z''"
    and sB: "start_time_of ?dB = ''2024-01-15T09:00:00Z''"
    by code_simp+
  have hA: "\<exists>dt. valid_datetime dt \<and> utcoffset dt = 0 \<and> startTime ?A = start_time_of dt"
    using vA sA by (intro exI[of _ ?dA]) (simp only: draft.simps datetime.simps simp_thms)
  have hB: "\<exists>dt. valid_datetime dt \<and> utcoffset dt = 0 \<and> startTime ?B = start_time_of dt"
    using vB sB by (intro exI[of _ ?dB]) (simp only: draft.simps datetime.simps simp_thms)
  have hB2: "\<exists>dt. valid_datetime dt \<and> utcoffset dt = 0 \<and> startTime ?B2 = start_time_of dt"
    using vB sB by (intro exI[of _ ?dB]) (simp only: draft.simps datetime.simps simp_thms)
  have h: "\<forall>s \<in> set [?A, ?B, ?B2]. \<exists>dt. valid_datetime dt \<and> utcoffset dt = 0 \<and>
             startTime s = start_time_of dt"
    using hA hB hB2 by (simp only: list.set ball_simps simp_thms)
  have E: "calculate_durations [?A, ?B, ?B2] = Inr ?out"
    by code_simp
  from durations_in_range[OF h]
  obtain out where o: "calculate_durations [?A, ?B, ?B2] = Inr out"
    "\<forall>s \<in> set out. 0 \<le> duration s \<and> duration s \<le> 240"
    by blast
  from o(1) E have "out = ?out" by (simp only: sum.inject)
  with o(2) have "\<forall>s \<in> set ?out. 0 \<le> duration s \<and> duration s \<le> 240" by (simp only:)
  then have L: "list_all (\<lambda>s. 0 \<le> duration s \<and> duration s \<le> 240) ?out"
    by (simp only: list_all_iff)
  show ?thesis
    by (intro conjI vA vB sA sB E L)
qed

text \<open>
  Claim C10 as stated fails: the sort compares the strings, and on start times of mixed
  shapes the order of the strings is not the order of the instants. \<open>10:00\<close> at the offset
  \<open>+02:00\<close> is \<open>08:00\<close> UTC; its string sorts after \<open>09:30Z\<close>, and the session of
  \<open>09:30Z\<close> gets a duration of minus 90 minutes.
\<close>

theorem durations_in_range_counterexample:
  "calculate_durations
     [\<lparr>category = ''debug'', title = JString ''Fix Bug'',
       startTime = ''2024-01-15T10:00:00+02:00'', confidence = ''high'',
       filename = ''2024-01-15_08-00Z-fix-bug.md'', preview = JString ''why''\<rparr>,
      \<lparr>category = ''plan'', title = JString ''Plan Day'',
       startTime = ''2024-01-15T09:30:00Z'', confidence = ''high'',
       filename = ''2024-01-15_09-30Z-plan-day.md'', preview = JString ''next''\<rparr>] =
   Inr
     [\<lparr>category = ''plan'', title = JString ''Plan Day'',
       startTime = ''2024-01-15T09:30:00Z'', confidence = ''high'',
       filename = ''2024-01-15_09-30Z-plan-day.md'', preview = JString ''next'',
       duration = - 90\<rparr>,
      \<lparr>category = ''debug'', title = JString ''Fix Bug'',
       startTime = ''2024-01-15T10:00:00+02:00'', confidence = ''high'',
       filename = ''2024-01-15_08-00Z-fix-bug.md'', preview = JString ''why'',
       duration = 30\<rparr>]"
  by code_simp

section \<open>Properties of the filename parser\<close>

text \<open>The greedy group: what \<open>match_slug\<close> finds.\<close>

lemma match_slug_sound:
  "match_slug r = Some s \<Longrightarrow> s \<noteq> [] \<and> CHR 0x0A \<notin> set s \<and> (\<exists>rest. r = s @ ''.md'' @ rest)"
proof (induction r arbitrary: s)
  case Nil
  then show ?case by simp
next
  case (Cons c cs)
  from Cons.prems have c: "c \<noteq> CHR 0x0A" by (auto split: if_splits)
  show ?case
  proof (cases "match_slug cs")
    case None
    with Cons.prems c have p: "prefix ''.md'' cs" and s: "s = [c]"
      by (auto split: if_splits)
    from p obtain rest where "cs = ''.md'' @ rest" by (auto simp: prefix_def)
    with s c show ?thesis by auto
  next
    case (Some s')
    with Cons.prems c have s: "s = c # s'" by simp
    from Cons.IH[OF Some] obtain rest where "s' \<noteq> []" "CHR 0x0A \<notin> set s'"
      "cs = s' @ ''.md'' @ rest" by blast
    with s c show ?thesis by auto
  qed
qed

lemma match_slug_complete:
  assumes "s' \<noteq> []" "CHR 0x0A \<notin> set s'" "r = s' @ ''.md'' @ rest"
  shows "\<exists>s. match_slug r = Some s \<and> length s' \<le> length s"
  using assms
proof (induction r arbitrary: s')
  case Nil
  then show ?case by simp
next
  case (Cons c cs)
  from Cons.prems obtain t where s': "s' = c # t" by (cases s') auto
  with Cons.prems have c: "c \<noteq> CHR 0x0A" and t: "CHR 0x0A \<notin> set t"
    and cs: "cs = t @ ''.md'' @ rest" by auto
  show ?case
  proof (cases "t = []")
    case True
    with cs have p: "prefix ''.md'' cs" by (simp add: prefix_def)
    show ?thesis
    proof (cases "match_slug cs")
      case None
      with c p s' True show ?thesis by simp
    next
      case (Some s0)
      with c s' True show ?thesis by simp
    qed
  next
    case False
    from Cons.IH[OF False t cs] obtain s0 where "match_slug cs = Some s0"
      "length t \<le> length s0" by blast
    with c s' show ?thesis by simp
  qed
qed

lemma match_slug_None_iff:
  "match_slug r = None \<longleftrightarrow>
     \<not> (\<exists>s rest. s \<noteq> [] \<and> CHR 0x0A \<notin> set s \<and> r = s @ ''.md'' @ rest)"
proof
  assume n: "match_slug r = None"
  show "\<not> (\<exists>s rest. s \<noteq> [] \<and> CHR 0x0A \<notin> set s \<and> r = s @ ''.md'' @ rest)"
  proof
    assume "\<exists>s rest. s \<noteq> [] \<and> CHR 0x0A \<notin> set s \<and> r = s @ ''.md'' @ rest"
    then obtain s rest where "s \<noteq> []" "CHR 0x0A \<notin> set s" "r = s @ ''.md'' @ rest" by blast
    from match_slug_complete[OF this] n show False by simp
  qed
next
  assume a: "\<not> (\<exists>s rest. s \<noteq> [] \<and> CHR 0x0A \<notin> set s \<and> r = s @ ''.md'' @ rest)"
  show "match_slug r = None"
  proof (cases "match_slug r")
    case None
    then show ?thesis .
  next
    case (Some s)
    from match_slug_sound[OF this] a show ?thesis by blast
  qed
qed


lemma is_digit_zero: "is_digit CHR ''0''"
  by (simp add: is_digit_iff)

lemma digits_val_zero: "digits_val ''00'' = 0"
  by (simp add: digits_val_def digit_val_def)

text \<open>\<open>parse_filename\<close> on a name that starts with twelve digits in the right places.\<close>

lemma parse_filename_digits:
  assumes "list_all is_digit [y1, y2, y3, y4, m1, m2, d1, d2, h1, h2, n1, n2]"
  shows "parse_filename ([y1, y2, y3, y4, CHR ''-'', m1, m2, CHR ''-'', d1, d2, CHR ''_'',
                          h1, h2, CHR ''-'', n1, n2, CHR ''Z'', CHR ''-''] @ r) =
    (case match_slug r of
       None \<Rightarrow> Inl InvalidFilenameFormat
     | Some slug \<Rightarrow>
         (let dt = \<lparr>year = digits_val [y1, y2, y3, y4], month = digits_val [m1, m2],
                    day = digits_val [d1, d2], hour = digits_val [h1, h2],
                    minute = digits_val [n1, n2], second = 0, utcoffset = 0\<rparr>
          in if valid_datetime dt then Inr (dt, str_title (replace ''-'' '' '' slug))
             else Inl InvalidIsoformatString))"
proof (cases "match_slug r")
  case None
  then show ?thesis using assms by (simp add: parse_filename_def)
next
  case (Some slug)
  have m: "match_filename ([y1, y2, y3, y4, CHR ''-'', m1, m2, CHR ''-'', d1, d2, CHR ''_'',
                          h1, h2, CHR ''-'', n1, n2, CHR ''Z'', CHR ''-''] @ r) =
      Some ([y1, y2, y3, y4, CHR ''-'', m1, m2, CHR ''-'', d1, d2],
            [h1, h2, CHR ''-'', n1, n2], slug)"
    using assms Some by simp
  have t: "replace ''-'' '':'' [h1, h2, CHR ''-'', n1, n2] = [h1, h2, CHR '':'', n1, n2]"
    using assms by (simp add: is_digit_not_sep)
  have d: "list_all is_digit [y1, y2, y3, y4, m1, m2, d1, d2, h1, h2, n1, n2, CHR ''0'', CHR ''0'']"
    using assms by (simp add: is_digit_zero)
  have z: "replace ''Z'' ''+00:00''
       ([y1, y2, y3, y4, CHR ''-'', m1, m2, CHR ''-'', d1, d2] @ ''T'' @
        [h1, h2, CHR '':'', n1, n2] @ '':00Z'') =
       [y1, y2, y3, y4, CHR ''-'', m1, m2, CHR ''-'', d1, d2, CHR ''T'', h1, h2, CHR '':'',
        n1, n2, CHR '':'', CHR ''0'', CHR ''0'', CHR ''+'', CHR ''0'', CHR ''0'', CHR '':'',
        CHR ''0'', CHR ''0'']"
    using replace_Z_digits'[OF d] by simp
  have f: "fromisoformat
       [y1, y2, y3, y4, CHR ''-'', m1, m2, CHR ''-'', d1, d2, CHR ''T'', h1, h2, CHR '':'',
        n1, n2, CHR '':'', CHR ''0'', CHR ''0'', CHR ''+'', CHR ''0'', CHR ''0'', CHR '':'',
        CHR ''0'', CHR ''0''] =
      (let dt = \<lparr>year = digits_val [y1, y2, y3, y4], month = digits_val [m1, m2],
                    day = digits_val [d1, d2], hour = digits_val [h1, h2],
                    minute = digits_val [n1, n2], second = 0, utcoffset = 0\<rparr>
       in if valid_datetime dt then Inr dt else Inl InvalidIsoformatString)"
    using d digits_val_zero by (simp add: is_digit_zero)
  show ?thesis
    unfolding parse_filename_def m Some
    by (simp only: prod.case option.case t z f Let_def) (simp split: if_splits)
qed

lemma match_filename_shape:
  assumes "match_filename f = Some x"
  shows "\<exists>y1 y2 y3 y4 m1 m2 d1 d2 h1 h2 n1 n2 r.
           f = [y1, y2, y3, y4, CHR ''-'', m1, m2, CHR ''-'', d1, d2, CHR ''_'',
                h1, h2, CHR ''-'', n1, n2, CHR ''Z'', CHR ''-''] @ r \<and>
           list_all is_digit [y1, y2, y3, y4, m1, m2, d1, d2, h1, h2, n1, n2]"
  using assms
proof (cases f rule: match_filename.cases)
  case (1 y1 y2 y3 y4 a m1 m2 b d1 d2 u h1 h2 c n1 n2 z e rest)
  with assms have "list_all is_digit [y1, y2, y3, y4, m1, m2, d1, d2, h1, h2, n1, n2] \<and>
        [a, b, u, c, z, e] = ''--_-Z-''"
    by (simp split: if_splits)
  with 1 show ?thesis by auto
qed simp_all


lemma parse_filename_Inr_shape:
  assumes "parse_filename f = Inr (dt, t)"
  shows "\<exists>r slug. f = pad4 (year dt) @ ''-'' @ pad2 (month dt) @ ''-'' @ pad2 (day dt) @ ''_'' @
                      pad2 (hour dt) @ ''-'' @ pad2 (minute dt) @ ''Z-'' @ r \<and>
           match_slug r = Some slug \<and> valid_datetime dt \<and> second dt = 0 \<and>
           utcoffset dt = 0 \<and> t = str_title (replace ''-'' '' '' slug)"
proof -
  from assms obtain x where "match_filename f = Some x"
    by (cases "match_filename f") (simp_all add: parse_filename_def)
  from match_filename_shape[OF this]
  obtain y1 y2 y3 y4 m1 m2 d1 d2 h1 h2 n1 n2 r where
    f: "f = [y1, y2, y3, y4, CHR ''-'', m1, m2, CHR ''-'', d1, d2, CHR ''_'',
             h1, h2, CHR ''-'', n1, n2, CHR ''Z'', CHR ''-''] @ r"
    and dg: "list_all is_digit [y1, y2, y3, y4, m1, m2, d1, d2, h1, h2, n1, n2]"
    by blast
  let ?dt = "\<lparr>year = digits_val [y1, y2, y3, y4], month = digits_val [m1, m2],
              day = digits_val [d1, d2], hour = digits_val [h1, h2],
              minute = digits_val [n1, n2], second = 0, utcoffset = 0\<rparr>"
  from assms obtain slug where s: "match_slug r = Some slug" "valid_datetime ?dt" "dt = ?dt"
    "t = str_title (replace ''-'' '' '' slug)"
    unfolding f parse_filename_digits[OF dg]
    by (auto simp: Let_def split: option.splits if_splits)
  from dg have p: "pad4 (digits_val [y1, y2, y3, y4]) = [y1, y2, y3, y4]"
    "pad2 (digits_val [m1, m2]) = [m1, m2]" "pad2 (digits_val [d1, d2]) = [d1, d2]"
    "pad2 (digits_val [h1, h2]) = [h1, h2]" "pad2 (digits_val [n1, n2]) = [n1, n2]"
    by (simp_all add: pad4_digits_val pad2_digits_val)
  have "f = pad4 (year dt) @ ''-'' @ pad2 (month dt) @ ''-'' @ pad2 (day dt) @ ''_'' @
                      pad2 (hour dt) @ ''-'' @ pad2 (minute dt) @ ''Z-'' @ r"
    unfolding s(3) f by (simp add: p)
  with s show ?thesis by simp
qed



lemma length_filename_prefix:
  "length (pad4 y @ ''-'' @ pad2 mo @ ''-'' @ pad2 d @ ''_'' @ pad2 h @ ''-'' @ pad2 mi @ ''Z-'') = 18"
  by simp




section \<open>The sessions that the assembler builds\<close>

text \<open>
  The hypotheses of the theorems on the duration calculator and on the aggregator hold of
  every session that \<open>assemble_session\<close> returns, so \<open>parse_all_files\<close> always returns a
  document, whatever the files.
\<close>

lemma parse_filename_timestamp:
  assumes "parse_filename f = Inr (ts, t)"
  shows "valid_datetime ts \<and> utcoffset ts = 0"
  using parse_filename_Inr_shape[OF assms] by blast

lemma categorize_session_category:
  "fst (categorize_session ttl content) \<in> set category_names"
proof -
  from winner_has_highest_score[of ttl content]
  have "fst (categorize_session ttl content) \<in> fst ` set (scores ttl content)"
    by (metis map_of_eq_None_iff option.distinct(1))
  then show ?thesis using scores_keys[of ttl content] by (metis set_map)
qed

lemma validate_reply_category:
  assumes "validate_reply data = Inr (Some d)"
  shows "\<exists>c \<in> set category_names. map_of d ''category'' = Some (JString c)"
proof (cases data)
  case (JObject kvs)
  show ?thesis
  proof (cases "map_of kvs ''category''")
    case None
    with assms JObject show ?thesis by (simp split: if_splits)
  next
    case (Some c)
    have cg: "''codegen'' \<in> set category_names" by (simp add: category_names_eq)
    show ?thesis
    proof (cases "c \<notin> set (map JString category_names)")
      case True
      with assms JObject Some have "d = AList.update ''category'' (JString ''codegen'') kvs"
        by (simp split: if_splits)
      with cg show ?thesis by (auto simp: update_conv')
    next
      case False
      with assms JObject Some have "d = kvs" by (simp split: if_splits)
      with False Some show ?thesis by auto
    qed
  qed
qed (use assms in \<open>simp_all split: if_splits\<close>)

lemma categorize_with_openai_category:
  assumes "categorize_with_openai use_openai reply = Some d"
  shows "\<exists>c \<in> set category_names. map_of d ''category'' = Some (JString c)"
proof -
  from assms obtain data where "validate_reply data = Inr (Some d)"
    by (auto simp: categorize_with_openai_def split: if_splits option.splits sum.splits)
  then show ?thesis by (rule validate_reply_category)
qed

lemma assemble_session_invariant:
  assumes "assemble_session use_openai fname content reply = Inr s"
  shows "category s \<in> set category_names \<and>
         (\<exists>dt. valid_datetime dt \<and> utcoffset dt = 0 \<and> startTime s = start_time_of dt)"
proof -
  from assms obtain ts ttl where pf: "parse_filename fname = Inr (ts, ttl)"
    by (cases "parse_filename fname") (auto simp: assemble_session_def)
  note v = parse_filename_timestamp[OF pf]
  let ?kw = "\<lparr>category = fst (categorize_session ttl content), title = JString ttl,
              startTime = start_time_of ts,
              confidence = snd (categorize_session ttl content), filename = fname,
              preview = JString (keyword_preview content)\<rparr>"
  have st: "startTime s = start_time_of ts \<and> category s \<in> set category_names"
  proof (cases "categorize_with_openai use_openai reply")
    case None
    from assemble_session_keyword[OF pf None, of content] assms have "s = ?kw" by simp
    then show ?thesis by (simp add: categorize_session_category)
  next
    case (Some d)
    from categorize_with_openai_category[OF Some] obtain c where
      c: "c \<in> set category_names" "map_of d ''category'' = Some (JString c)" by blast
    then have ne: "d \<noteq> []" by auto
    from assms show ?thesis
      unfolding assemble_session_def pf Some
      using ne c by (auto simp: Let_def lookup_def split: option.splits sum.splits)
  qed
  with v show ?thesis by blast
qed

lemma assemble_all_invariant:
  "\<forall>s \<in> set (assemble_all use_openai files).
     category s \<in> set category_names \<and>
     (\<exists>dt. valid_datetime dt \<and> utcoffset dt = 0 \<and> startTime s = start_time_of dt)"
proof (induction files)
  case Nil
  then show ?case by simp
next
  case (Cons entry files)
  obtain fname content reply where entry: "entry = (fname, content, reply)" by (cases entry)
  show ?case
  proof (cases "assemble_session use_openai fname content reply")
    case (Inl e)
    with Cons show ?thesis by (simp add: entry)
  next
    case (Inr s)
    from assemble_session_invariant[OF Inr] Cons Inr show ?thesis by (simp add: entry)
  qed
qed

lemma calculate_durations_category:
  assumes "calculate_durations ss = Inr out"
    and "\<forall>s \<in> set ss. \<exists>dt. valid_datetime dt \<and> startTime s = start_time_of dt"
  shows "category ` set out = category ` set ss"
proof -
  let ?ss = "sort_key startTime ss"
  have "\<forall>s \<in> set ?ss. \<exists>dt. valid_datetime dt \<and> startTime s = start_time_of dt"
    using assms(2) by simp
  from durations_loop_spec[OF this] assms(1) have m: "map without_duration out = ?ss"
    by (auto simp: calculate_durations_def)
  have "category ` set out = category ` set (map without_duration out)"
    by (simp add: image_image)
  also have "\<dots> = category ` set ss" unfolding m by simp
  finally show ?thesis .
qed

lemma parse_all_files_returns:
  "\<exists>doc. parse_all_files use_openai round1 now files = Inr doc \<and>
     (\<forall>s \<in> set (sessions doc). 0 \<le> duration s \<and> duration s \<le> 240) \<and>
     (\<Sum>e\<leftarrow>doc_categories doc. stats_duration (snd e)) = totalDuration doc"
proof -
  let ?ss = "assemble_all use_openai files"
  note inv = assemble_all_invariant[of use_openai files]
  from inv have h0: "\<forall>s \<in> set ?ss. \<exists>dt. valid_datetime dt \<and> utcoffset dt = 0 \<and>
      startTime s = start_time_of dt" by blast
  then have h1: "\<forall>s \<in> set ?ss. \<exists>dt. valid_datetime dt \<and> startTime s = start_time_of dt"
    by blast
  have "\<exists>out. durations_loop (sort_key startTime ?ss) = Inr out"
    using durations_loop_spec[of "sort_key startTime ?ss"] h1 by auto
  then obtain out where out: "calculate_durations ?ss = Inr out"
    by (auto simp: calculate_durations_def)
  have srt: "sorted (map startTime (sort_key startTime ?ss))" by (simp add: sorted_sort_key)
  have h0': "\<forall>s \<in> set (sort_key startTime ?ss). \<exists>dt. valid_datetime dt \<and> utcoffset dt = 0 \<and>
      startTime s = start_time_of dt" using h0 by simp
  have rng: "\<forall>s \<in> set out. 0 \<le> duration s \<and> duration s \<le> 240"
    using durations_loop_bounds[OF h0' srt] out by (simp add: calculate_durations_def)
  have ceq: "category ` set out = category ` set ?ss"
    by (rule calculate_durations_category[OF out h1])
  have cat: "\<forall>s \<in> set out. category s \<in> set category_names"
  proof
    fix s assume "s \<in> set out"
    then have "category s \<in> category ` set out" by (rule imageI)
    with ceq obtain s' where "s' \<in> set ?ss" "category s = category s'" by auto
    with inv show "category s \<in> set category_names" by auto
  qed
  from stats_loop_sum[OF distinct_categories, of round1 out "total_duration_of out"]
  obtain stats where st: "stats_loop round1 out (total_duration_of out) categories = Inr stats"
    "(\<Sum>e\<leftarrow>stats. stats_duration (snd e)) =
       (\<Sum>s\<leftarrow>filter (\<lambda>s. category s \<in> set (map fst categories)) out. duration s)" by blast
  have "filter (\<lambda>s. category s \<in> set (map fst categories)) out = out"
    using cat by (simp add: category_names_def filter_id_conv)
  with st out rng show ?thesis
    by (simp add: parse_all_files_def build_document_def Let_def total_duration_of_def)
qed

end
